theory Spec2Isabelle
  imports Complex_Main "HOL-Library.Multiset"
begin

section \<open>Values shared by the whole script\<close>

text \<open>
  The script \<^verbatim>\<open>unarchive.py\<close> restores the archived objects of a bucket. The
  storage service, the clock and the thread scheduler are outside the script; they enter
  the model as parameters, and every call the script makes to them is written to a trace
  of events, so that a theorem can speak about which calls were made.
\<close>

subsection \<open>Exceptions\<close>

datatype exn =
    ClientError string
  | KeyError string
  | ValueError string
  | ZeroDivisionError
  | TypeError string
  | FileNotFoundError string
  | UnicodeDecodeError
  | OtherException string

text \<open>\<^verbatim>\<open>str(e)\<close>, as the handlers format it into their messages.\<close>

fun exn_str :: "exn \<Rightarrow> string" where
  "exn_str (ClientError m) = m"
| "exn_str (KeyError m) = [CHR 0x27] @ m @ [CHR 0x27]"
| "exn_str (ValueError m) = m"
| "exn_str ZeroDivisionError = ''division by zero''"
| "exn_str (TypeError m) = m"
| "exn_str (FileNotFoundError m) = m"
| "exn_str UnicodeDecodeError = ''invalid start byte''"
| "exn_str (OtherException m) = m"

text \<open>A call to the service either raises or returns.\<close>

datatype 'a resp = Raises exn | Returns 'a

subsection \<open>Formatting of integers\<close>

definition digit_char :: "nat \<Rightarrow> char" where
  "digit_char d = ''0123456789'' ! d"

fun str_nat :: "nat \<Rightarrow> string" where
  "str_nat n = (if n < 10 then [digit_char n] else str_nat (n div 10) @ [digit_char (n mod 10)])"

declare str_nat.simps [simp del]

text \<open>\<^verbatim>\<open>str(i)\<close> and \<^verbatim>\<open>f"{i}"\<close> for an integer.\<close>

definition str_int :: "int \<Rightarrow> string" where
  "str_int i = (if i < 0 then CHR ''-'' # str_nat (nat (- i)) else str_nat (nat i))"

definition zero_pad :: "nat \<Rightarrow> string \<Rightarrow> string" where
  "zero_pad w s = replicate (w - length s) CHR ''0'' @ s"

text \<open>\<^verbatim>\<open>f"{i:010}"\<close>: width ten, zeros after the sign.\<close>

definition fmt010 :: "int \<Rightarrow> string" where
  "fmt010 i = (if i < 0 then CHR ''-'' # zero_pad 9 (str_nat (nat (- i)))
               else zero_pad 10 (str_nat (nat i)))"

definition quoted :: "string \<Rightarrow> string" where
  "quoted s = [CHR 0x27] @ s @ [CHR 0x27]"

subsection \<open>The Status class\<close>

record Status =
  error :: int
  restored :: int
  already_restored :: int

abbreviation new_Status :: "int \<Rightarrow> int \<Rightarrow> int \<Rightarrow> Status" where
  "new_Status e r a \<equiv> \<lparr>error = e, restored = r, already_restored = a\<rparr>"

definition increment_error :: "Status \<Rightarrow> int \<Rightarrow> Status" where
  "increment_error s increment = s\<lparr>error := error s + increment\<rparr>"

definition increment_restored :: "Status \<Rightarrow> int \<Rightarrow> Status" where
  "increment_restored s increment = s\<lparr>restored := restored s + increment\<rparr>"

definition increment_already_restored :: "Status \<Rightarrow> int \<Rightarrow> Status" where
  "increment_already_restored s increment = s\<lparr>already_restored := already_restored s + increment\<rparr>"

text \<open>\<^verbatim>\<open>Status.__str__\<close>\<close>

definition Status_str :: "Status \<Rightarrow> string" where
  "Status_str s = ''[Errors: '' @ str_int (error s) @ '', Already restored: ''
     @ str_int (already_restored s) @ '', Restored: '' @ str_int (restored s) @ '']''"

subsection \<open>The storage client and the trace\<close>

record obj =
  Key :: string
  StorageClass :: string

text \<open>A page of the listing; \<^verbatim>\<open>Contents\<close> is absent from an empty page.\<close>

record page =
  Contents :: "obj list option"

datatype page_item = Page page | PageRaises exn

record list_request =
  Bucket :: string
  MaxKeys :: int
  Prefix :: "string option"
  StartAfter :: string

text \<open>The answer to \<^verbatim>\<open>head_object\<close>: the \<^verbatim>\<open>Restore\<close> entry may be absent.\<close>

record head =
  Restore :: "string option"

text \<open>
  The client. \<^verbatim>\<open>head_object\<close> returns a dictionary (\<open>None\<close> stands for a falsy answer),
  \<^verbatim>\<open>restore_object\<close> returns or raises, and the paginator yields pages until one raises.
\<close>

record cos_client =
  head_object :: "string \<Rightarrow> string \<Rightarrow> head option resp"
  restore_object_rpc :: "string \<Rightarrow> string \<Rightarrow> int \<Rightarrow> unit resp"
  paginate :: "list_request \<Rightarrow> page_item list"

datatype level = DEBUG | INFO | WARNING | ERROR

datatype event =
    HeadCall string string
  | RestoreCall string string int
  | ListCall list_request
  | Submit string int
  | Log level string
  | Print string
  | ProgressTotal "int option"

section \<open>The Object Restorer\<close>

fun contains :: "string \<Rightarrow> string \<Rightarrow> bool" where
  "contains needle [] = (needle = [])"
| "contains needle (c # cs) = (take (length needle) (c # cs) = needle \<or> contains needle cs)"

definition ongoing_false :: string where
  "ongoing_false = ''ongoing-request='' @ [CHR 0x22] @ ''false'' @ [CHR 0x22]"

text \<open>Truth value of what \<^verbatim>\<open>object_head.get("Restore")\<close> returns.\<close>

definition truthy :: "string option \<Rightarrow> bool" where
  "truthy r = (case r of None \<Rightarrow> False | Some s \<Rightarrow> s \<noteq> [])"

definition msg_already :: "string \<Rightarrow> int \<Rightarrow> string" where
  "msg_already object_key index =
     ''Object '' @ quoted object_key @ '' (index='' @ fmt010 index @ '') has been already restored.''"

definition msg_in_progress :: "string \<Rightarrow> int \<Rightarrow> string" where
  "msg_in_progress object_key index =
     ''Object '' @ quoted object_key @ '' (index='' @ fmt010 index @ '') restoration is still in progress.''"

definition msg_restored :: "string \<Rightarrow> int \<Rightarrow> string" where
  "msg_restored object_key index =
     ''Object '' @ quoted object_key @ '' (index='' @ fmt010 index @ '') has been restored.''"

definition msg_not_found :: "string \<Rightarrow> int \<Rightarrow> string" where
  "msg_not_found object_key index =
     ''Object '' @ quoted object_key @ '' (index='' @ fmt010 index @ '') not found.''"

definition msg_failed :: "string \<Rightarrow> int \<Rightarrow> exn \<Rightarrow> string" where
  "msg_failed object_key index e =
     ''Failed to restore object '' @ quoted object_key @ '' (index='' @ str_int index @ ''): '' @ exn_str e"

text \<open>
  The body of the \<^verbatim>\<open>try\<close> of \<^verbatim>\<open>restore_object\<close>: the events it produced, and
  either the exception that left it or the Status it returned.
\<close>

definition restore_object_try ::
  "cos_client \<Rightarrow> string \<Rightarrow> string \<Rightarrow> int \<Rightarrow> int \<Rightarrow> event list \<times> (exn + Status)" where
  "restore_object_try cli bucket_name object_key days index =
     (case head_object cli bucket_name object_key of
        Raises e \<Rightarrow> ([HeadCall bucket_name object_key], Inl e)
      | Returns None \<Rightarrow>
          ([HeadCall bucket_name object_key, Log ERROR (msg_not_found object_key index)],
           Inr (new_Status 1 0 0))
      | Returns (Some object_head) \<Rightarrow>
          (if truthy (Restore object_head) then
             ([HeadCall bucket_name object_key,
               Log WARNING (if contains ongoing_false (the (Restore object_head))
                            then msg_already object_key index
                            else msg_in_progress object_key index)],
              Inr (new_Status 0 0 1))
           else
             (case restore_object_rpc cli bucket_name object_key days of
                Raises e \<Rightarrow>
                  ([HeadCall bucket_name object_key, RestoreCall bucket_name object_key days], Inl e)
              | Returns _ \<Rightarrow>
                  ([HeadCall bucket_name object_key, RestoreCall bucket_name object_key days,
                    Log INFO (msg_restored object_key index)],
                   Inr (new_Status 0 1 0)))))"

text \<open>\<^verbatim>\<open>restore_object\<close>: the \<^verbatim>\<open>try\<close> with its handler \<^verbatim>\<open>except Exception\<close>.\<close>

definition restore_object ::
  "cos_client \<Rightarrow> string \<Rightarrow> string \<Rightarrow> int \<Rightarrow> int \<Rightarrow> event list \<times> Status" where
  "restore_object cli bucket_name object_key days index =
     (case restore_object_try cli bucket_name object_key days index of
        (evs, Inr st) \<Rightarrow> (evs, st)
      | (evs, Inl e) \<Rightarrow> (evs @ [Log ERROR (msg_failed object_key index e)], new_Status 1 0 0))"

section \<open>The Dispatcher\<close>

text \<open>The filter of \<^verbatim>\<open>restore_objects\<close>: the storage classes that need a restore call.\<close>

definition eligible :: "obj \<Rightarrow> bool" where
  "eligible ob = (StorageClass ob = ''GLACIER'' \<or> StorageClass ob = ''ACCELERATED'')"

text \<open>
  The submission loop of one page. Every key is submitted with the running index, which
  is then incremented. The tasks run concurrently in the source; the trace lists each
  task's events right after its submission, which is the schedule of a single worker.
\<close>

fun submit_all ::
  "cos_client \<Rightarrow> string \<Rightarrow> int \<Rightarrow> int \<Rightarrow> string list \<Rightarrow> event list \<times> Status list \<times> int" where
  "submit_all cli bucket_name days index [] = ([], [], index)"
| "submit_all cli bucket_name days index (object_key # rest) =
     (let (evs, result) = restore_object cli bucket_name object_key days index;
          (evs', results, index') = submit_all cli bucket_name days (index + 1) rest
      in (Submit object_key index # evs @ evs', result # results, index'))"

text \<open>The loop over the completed tasks: each result is added to the job status.\<close>

definition add_result :: "Status \<Rightarrow> Status \<Rightarrow> Status" where
  "add_result status result =
     increment_restored
       (increment_already_restored (increment_error status (error result)) (already_restored result))
       (restored result)"

definition fold_results :: "Status \<Rightarrow> Status list \<Rightarrow> Status" where
  "fold_results status results = foldl add_result status results"

text \<open>
  The loop over the pages. \<open>as_completed\<close> is the order in which the scheduler hands the
  finished tasks back. A page without \<^verbatim>\<open>Contents\<close> raises KeyError, and a worker count
  below one makes \<^verbatim>\<open>ThreadPoolExecutor\<close> raise ValueError.
\<close>

fun pages_loop ::
  "cos_client \<Rightarrow> (Status list \<Rightarrow> Status list) \<Rightarrow> string \<Rightarrow> int \<Rightarrow> int \<Rightarrow>
   page_item list \<Rightarrow> int \<Rightarrow> Status \<Rightarrow> event list \<times> (exn + Status)" where
  "pages_loop cli as_completed bucket_name threads days [] index status = ([], Inr status)"
| "pages_loop cli as_completed bucket_name threads days (PageRaises e # rest) index status =
     ([], Inl e)"
| "pages_loop cli as_completed bucket_name threads days (Page p # rest) index status =
     (case Contents p of
        None \<Rightarrow> ([], Inl (KeyError ''Contents''))
      | Some objects \<Rightarrow>
          (let archived_objects = map Key (filter eligible objects) in
           if threads \<le> 0 then ([], Inl (ValueError ''max_workers must be greater than 0''))
           else
             (let (evs, results, index') = submit_all cli bucket_name days index archived_objects;
                  status' = fold_results status (as_completed results);
                  (evs', r) = pages_loop cli as_completed bucket_name threads days rest index' status'
              in (evs @ evs', r))))"

subsection \<open>Counting the pages\<close>

text \<open>
  \<^verbatim>\<open>math.ceil(a / b)\<close>. The source forms the quotient in double precision; the model
  takes the exact quotient, which agrees with it as long as the object count stays below
  \<open>2^42\<close> and the page size is at most 1000.
\<close>

definition ceil_div :: "int \<Rightarrow> int \<Rightarrow> exn + int" where
  "ceil_div a b = (if b = 0 then Inl ZeroDivisionError else Inr \<lceil>real_of_int a / real_of_int b\<rceil>)"

text \<open>\<^verbatim>\<open>sum(1 for _ in pages)\<close>\<close>

fun count_pages :: "page_item list \<Rightarrow> exn + int" where
  "count_pages [] = Inr 0"
| "count_pages (PageRaises e # rest) = Inl e"
| "count_pages (Page p # rest) = (case count_pages rest of Inl e \<Rightarrow> Inl e | Inr n \<Rightarrow> Inr (n + 1))"

definition Fore_GREEN :: string where "Fore_GREEN = [CHR 0x1B] @ ''[32m''"
definition Fore_RED :: string where "Fore_RED = [CHR 0x1B] @ ''[31m''"
definition Style_RESET_ALL :: string where "Style_RESET_ALL = [CHR 0x1B] @ ''[0m''"
definition nl :: string where "nl = [CHR 0x0A]"

text \<open>The request a call of \<^verbatim>\<open>paginate\<close> makes: the prefix is passed only when it is set.\<close>

definition listing ::
  "string \<Rightarrow> int \<Rightarrow> string option \<Rightarrow> string \<Rightarrow> list_request" where
  "listing bucket_name max_keys prefix start_after =
     \<lparr>Bucket = bucket_name, MaxKeys = max_keys,
      Prefix = (if truthy prefix then prefix else None), StartAfter = start_after\<rparr>"

definition get_page_count ::
  "cos_client option \<Rightarrow> string \<Rightarrow> int \<Rightarrow> string option \<Rightarrow> string \<Rightarrow> event list \<times> int option" where
  "get_page_count cos_cli bucket_name max_keys prefix start_after =
     (let log0 = Log INFO (''Retrieving bucket pages from: '' @ quoted bucket_name);
          (evs, r) =
            (case cos_cli of
               None \<Rightarrow> ([], Inl (OtherException ''cos_cli is not defined.''))
             | Some cli \<Rightarrow>
                 (let req = listing bucket_name max_keys prefix start_after;
                      evs0 = [Print ''Calculating the number of pages... '', ListCall req]
                  in case count_pages (paginate cli req) of
                       Inl e \<Rightarrow> (evs0, Inl e)
                     | Inr cnt \<Rightarrow>
                         (evs0 @ [Log INFO (''Page count: '' @ str_int cnt),
                                  Print (Fore_GREEN @ str_int cnt @ nl),
                                  Print (Style_RESET_ALL @ nl)],
                          Inr cnt)))
      in case r of
           Inr cnt \<Rightarrow> (log0 # evs, Some cnt)
         | Inl (ClientError m) \<Rightarrow>
             (log0 # evs @ [Print (''CLIENT ERROR: '' @ m @ nl @ nl),
                            Log ERROR (''CLIENT ERROR: '' @ m @ nl)], None)
         | Inl e \<Rightarrow>
             (log0 # evs @ [Print (''Unable to retrieve bucket pages: '' @ exn_str e @ nl),
                            Log ERROR (''Unable to retrieve bucket pages: '' @ exn_str e)], None))"

subsection \<open>\<^verbatim>\<open>restore_objects\<close>\<close>

definition msg_restoring ::
  "string \<Rightarrow> string option \<Rightarrow> int \<Rightarrow> int \<Rightarrow> string \<Rightarrow> int \<Rightarrow> int \<Rightarrow> string" where
  "msg_restoring bucket_name prefix threads days start_after start_index object_count =
     ''Restoring '' @ quoted bucket_name @ '' bucket objects (''
       @ (if object_count \<ge> 0 then str_int object_count else [])
       @ '') with prefix '' @ quoted (if truthy prefix then the prefix else [])
       @ (if start_after = [] then []
          else '' starting from object '' @ quoted start_after
               @ '' (index='' @ fmt010 start_index @ '')'')
       @ '' for '' @ str_int days @ '' days using '' @ str_int threads @ '' threads''"

text \<open>The page count of lines 156 to 164, with the events of its computation.\<close>

definition page_count_of ::
  "cos_client \<Rightarrow> string \<Rightarrow> int \<Rightarrow> string option \<Rightarrow> string \<Rightarrow> int \<Rightarrow> int \<Rightarrow>
   event list \<times> (exn + int option)" where
  "page_count_of cli bucket_name max_keys prefix start_after start_index object_count =
     (if \<not> truthy prefix then
        (case (if start_after = [] then ceil_div object_count max_keys
               else ceil_div (object_count - start_index) max_keys) of
           Inl e \<Rightarrow> ([], Inl e)
         | Inr n \<Rightarrow> ([], Inr (Some n)))
      else
        (let (evs, n) = get_page_count (Some cli) bucket_name max_keys prefix start_after
         in (evs, Inr n)))"

text \<open>The body of the \<^verbatim>\<open>try\<close> of \<^verbatim>\<open>restore_objects\<close>.\<close>

definition restore_objects_try ::
  "cos_client option \<Rightarrow> (Status list \<Rightarrow> Status list) \<Rightarrow> string \<Rightarrow> int \<Rightarrow> string option \<Rightarrow>
   int \<Rightarrow> int \<Rightarrow> string \<Rightarrow> int \<Rightarrow> int \<Rightarrow> event list \<times> (exn + Status)" where
  "restore_objects_try cos_cli as_completed bucket_name max_keys prefix threads days
       start_after start_index object_count =
     (case cos_cli of
        None \<Rightarrow> ([], Inl (OtherException ''cos_cli is not defined.''))
      | Some cli \<Rightarrow>
          (let req = listing bucket_name max_keys prefix start_after;
               pages = paginate cli req
           in case page_count_of cli bucket_name max_keys prefix start_after start_index object_count of
                (evs, Inl e) \<Rightarrow> (ListCall req # evs, Inl e)
              | (evs, Inr page_count) \<Rightarrow>
                  (let index = (if start_index = - 1 then 0 else start_index + 1);
                       (evs', r) = pages_loop cli as_completed bucket_name threads days pages index
                                     (new_Status 0 0 0)
                   in (ListCall req # evs @ [ProgressTotal page_count] @ evs', r))))"

definition restore_objects ::
  "cos_client option \<Rightarrow> (Status list \<Rightarrow> Status list) \<Rightarrow> string \<Rightarrow> int \<Rightarrow> string option \<Rightarrow>
   int \<Rightarrow> int \<Rightarrow> string \<Rightarrow> int \<Rightarrow> int \<Rightarrow> event list \<times> Status option" where
  "restore_objects cos_cli as_completed bucket_name max_keys prefix threads days
       start_after start_index object_count =
     (let log0 = Log INFO (msg_restoring bucket_name prefix threads days start_after start_index
                             object_count)
      in case restore_objects_try cos_cli as_completed bucket_name max_keys prefix threads days
                start_after start_index object_count of
           (evs, Inr status) \<Rightarrow> (log0 # evs, Some status)
         | (evs, Inl (ClientError m)) \<Rightarrow>
             (log0 # evs @ [Print (''CLIENT ERROR: '' @ m @ nl @ nl),
                            Log ERROR (''CLIENT ERROR: '' @ m @ nl)], None)
         | (evs, Inl e) \<Rightarrow>
             (log0 # evs @ [Print (''Unable to retrieve bucket contents: '' @ exn_str e @ nl),
                            Log ERROR (''Unable to retrieve bucket contents: '' @ exn_str e)], None))"

section \<open>The Resume Resolver\<close>

subsection \<open>The record pattern\<close>

text \<open>
  \<^verbatim>\<open>LOG_RE_PATTERN\<close> is a timestamp, the level INFO or WARNING, the text
  \<^verbatim>\<open>Object '\<close>, a lazy group for the key, a quote, anything, \<^verbatim>\<open>(index=\<close>, a lazy
  group of digits and a closing parenthesis. The functions below search a line for it in
  the order of the backtracking matcher of \<^verbatim>\<open>re.search\<close>: leftmost start, shortest
  key, longest skip before \<^verbatim>\<open>(index=\<close>. A \<open>char\<close> is a byte; the digit class is
  the ASCII digits.
\<close>

definition is_digit :: "char \<Rightarrow> bool" where
  "is_digit c = (c \<in> set ''0123456789'')"

definition dot :: "char \<Rightarrow> bool" where
  "dot c = (c \<noteq> CHR 0x0A)"

definition lit :: "char \<Rightarrow> char \<Rightarrow> bool" where
  "lit a c = (c = a)"

fun match_seq :: "(char \<Rightarrow> bool) list \<Rightarrow> string \<Rightarrow> string option" where
  "match_seq [] s = Some s"
| "match_seq (p # ps) [] = None"
| "match_seq (p # ps) (c # cs) = (if p c then match_seq ps cs else None)"

definition strip_prefix :: "string \<Rightarrow> string \<Rightarrow> string option" where
  "strip_prefix l s = (if take (length l) s = l then Some (drop (length l) s) else None)"

text \<open>\<^verbatim>\<open>\d{4}-\d{2}-\d{2} \d{2}:\d{2}:\d{2}.\d{3}\<close>\<close>

definition timestamp :: "(char \<Rightarrow> bool) list" where
  "timestamp =
     [is_digit, is_digit, is_digit, is_digit, lit CHR ''-'', is_digit, is_digit, lit CHR ''-'',
      is_digit, is_digit, lit CHR '' '', is_digit, is_digit, lit CHR '':'', is_digit, is_digit,
      lit CHR '':'', is_digit, is_digit, dot, is_digit, is_digit, is_digit]"

text \<open>\<^verbatim>\<open>\(index=(\d+?)\)\<close> at the head of the string: the digits of group 2.\<close>

definition index_group :: "string \<Rightarrow> string option" where
  "index_group s =
     (case strip_prefix ''(index='' s of
        None \<Rightarrow> None
      | Some r \<Rightarrow>
          (if takeWhile is_digit r \<noteq> [] \<and> take 1 (dropWhile is_digit r) = '')''
           then Some (takeWhile is_digit r) else None))"

text \<open>\<^verbatim>\<open>.*\(index=(\d+?)\).*\<close>: the greedy skip tries the longest first.\<close>

fun tail_match :: "string \<Rightarrow> string option" where
  "tail_match [] = index_group []"
| "tail_match (c # cs) =
     (case (if dot c then tail_match cs else None) of
        Some g \<Rightarrow> Some g
      | None \<Rightarrow> index_group (c # cs))"

text \<open>\<^verbatim>\<open>(.*?)'\<close> and the rest: the lazy group tries the shortest key first.\<close>

fun lazy_key :: "string \<Rightarrow> (string \<times> string) option" where
  "lazy_key [] = None"
| "lazy_key (c # cs) =
     (case (if c = CHR 0x27 then tail_match cs else None) of
        Some g \<Rightarrow> Some ([], g)
      | None \<Rightarrow>
          (if dot c then
             (case lazy_key cs of None \<Rightarrow> None | Some (k, g) \<Rightarrow> Some (c # k, g))
           else None))"

definition match_level :: "string \<Rightarrow> string option" where
  "match_level s =
     (case strip_prefix ''INFO'' s of Some r \<Rightarrow> Some r | None \<Rightarrow> strip_prefix ''WARNING'' s)"

text \<open>The whole pattern at the head of the string: groups 1 and 2.\<close>

definition match_here :: "string \<Rightarrow> (string \<times> string) option" where
  "match_here s =
     (case match_seq timestamp s of
        None \<Rightarrow> None
      | Some r1 \<Rightarrow>
          (case strip_prefix '' - '' r1 of
             None \<Rightarrow> None
           | Some r2 \<Rightarrow>
               (case match_level r2 of
                  None \<Rightarrow> None
                | Some r3 \<Rightarrow>
                    (case strip_prefix ('' - Object '' @ [CHR 0x27]) r3 of
                       None \<Rightarrow> None
                     | Some r4 \<Rightarrow> lazy_key r4))))"

text \<open>\<^verbatim>\<open>re.search(LOG_RE_PATTERN, line)\<close>\<close>

fun LOG_RE_PATTERN :: "string \<Rightarrow> (string \<times> string) option" where
  "LOG_RE_PATTERN [] = match_here []"
| "LOG_RE_PATTERN (c # cs) =
     (case match_here (c # cs) of Some m \<Rightarrow> Some m | None \<Rightarrow> LOG_RE_PATTERN cs)"

text \<open>
  \<^verbatim>\<open>int(s)\<close> on a string of ASCII digits, which is what group 2 of the record pattern
  holds; any other string is taken to raise ValueError.
\<close>

definition digit_value :: "char \<Rightarrow> int" where
  "digit_value c = int (length (takeWhile (\<lambda>d. d \<noteq> c) ''0123456789''))"

definition py_int :: "string \<Rightarrow> exn + int" where
  "py_int s =
     (if s \<noteq> [] \<and> list_all is_digit s
      then Inr (foldl (\<lambda>a c. 10 * a + digit_value c) 0 s)
      else Inl (ValueError ''invalid literal for int()''))"

subsection \<open>Reading the tail of the log\<close>

text \<open>
  The file system maps a path to the bytes of the file. \<^verbatim>\<open>buffer.decode()\<close> is modelled
  on ASCII: a line read backwards that holds a byte above 127 raises, as the reversed
  bytes of a UTF-8 character start with a continuation byte.
\<close>

type_synonym fs = "string \<Rightarrow> string option"

definition decode :: "string \<Rightarrow> exn + string" where
  "decode bs = (if list_all (\<lambda>b. \<not> digit7 b) bs then Inr bs else Inl UnicodeDecodeError)"

text \<open>
  The loop of \<^verbatim>\<open>get_last_n_lines\<close>. The second argument holds the bytes still to be
  read, last byte of the file first; the read at the end of the file returns no byte and
  changes nothing. The buffer holds the bytes of the current line in the order read.
\<close>

fun tail_scan :: "int \<Rightarrow> string \<Rightarrow> string list \<Rightarrow> string \<Rightarrow> exn + string list" where
  "tail_scan N [] list_of_lines buffer =
     (if length buffer > 0 then
        (case decode buffer of
           Inl e \<Rightarrow> Inl e
         | Inr s \<Rightarrow> Inr (list_of_lines @ [rev s]))
      else Inr list_of_lines)"
| "tail_scan N (new_byte # remaining) list_of_lines buffer =
     (if new_byte = CHR 0x0A then
        (case decode buffer of
           Inl e \<Rightarrow> Inl e
         | Inr s \<Rightarrow>
             (if int (length (list_of_lines @ [rev s])) = N
              then Inr (rev (list_of_lines @ [rev s]))
              else tail_scan N remaining (list_of_lines @ [rev s]) []))
      else tail_scan N remaining list_of_lines (buffer @ [new_byte]))"

definition get_last_n_lines :: "fs \<Rightarrow> string \<Rightarrow> int \<Rightarrow> exn + string list" where
  "get_last_n_lines files file_name N =
     (case files file_name of
        None \<Rightarrow> Inl (FileNotFoundError file_name)
      | Some bytes \<Rightarrow> tail_scan N (rev bytes) [] [])"

text \<open>The loop of \<^verbatim>\<open>get_last_object\<close> over the lines it is given.\<close>

fun first_match ::
  "(string \<Rightarrow> (string \<times> string) option) \<Rightarrow> string list \<Rightarrow> exn + (string \<times> int) option" where
  "first_match pattern [] = Inr None"
| "first_match pattern (line # rest) =
     (case pattern line of
        Some (g1, g2) \<Rightarrow> (case py_int g2 of Inl e \<Rightarrow> Inl e | Inr i \<Rightarrow> Inr (Some (g1, i)))
      | None \<Rightarrow> first_match pattern rest)"

text \<open>\<^verbatim>\<open>get_last_object\<close>: the file name and the line count are fixed in its body.\<close>

definition get_last_object ::
  "fs \<Rightarrow> string \<Rightarrow> int \<Rightarrow> (string \<Rightarrow> (string \<times> string) option) \<Rightarrow> exn + (string \<times> int) option" where
  "get_last_object files file_name N pattern =
     (case get_last_n_lines files ''unarchive.log'' 100 of
        Inl e \<Rightarrow> Inl e
      | Inr lines \<Rightarrow> first_match pattern (rev lines))"

section \<open>The main program\<close>

record args =
  apikey :: string
  bucket :: string
  prefix :: "string option"
  resume :: bool
  log_file :: string
  crn :: string
  region :: string
  endpoint :: string
  days :: int
  size' :: int
  threads :: int
  verbose :: bool

text \<open>
  What the program uses and does not define: the storage client it logs in to, the count
  query of the resource configuration service (the count may be absent from the answer),
  the order in which finished tasks come back, and the clock of the log records.
\<close>

record env =
  cos :: cos_client
  get_bucket_config :: "string \<Rightarrow> int option resp"
  as_completed :: "Status list \<Rightarrow> Status list"
  asctime :: "nat \<Rightarrow> string"

text \<open>How the process ends: an exit status, or an exception that nothing caught.\<close>

datatype outcome = Exit int | Uncaught exn

fun level_name :: "level \<Rightarrow> string" where
  "level_name DEBUG = ''DEBUG''"
| "level_name INFO = ''INFO''"
| "level_name WARNING = ''WARNING''"
| "level_name ERROR = ''ERROR''"

text \<open>The records among the events that the configured level lets through.\<close>

fun logged :: "bool \<Rightarrow> event list \<Rightarrow> (level \<times> string) list" where
  "logged v [] = []"
| "logged v (Log l m # evs) = (if l = DEBUG \<and> \<not> v then logged v evs else (l, m) # logged v evs)"
| "logged v (_ # evs) = logged v evs"

text \<open>The format \<^verbatim>\<open>%(asctime)s - %(levelname)s - %(message)s\<close>, one line per record.\<close>

fun render_log :: "(nat \<Rightarrow> string) \<Rightarrow> nat \<Rightarrow> (level \<times> string) list \<Rightarrow> string" where
  "render_log clock n [] = []"
| "render_log clock n ((l, m) # recs) =
     clock n @ '' - '' @ level_name l @ '' - '' @ m @ nl @ render_log clock (Suc n) recs"

text \<open>
  \<^verbatim>\<open>logging.basicConfig(filename=args.log_file, filemode="w", ...)\<close> opens the file for
  writing, which empties it; every record after that is appended. The state of the file
  after the events \<open>evs\<close> have happened:
\<close>

definition write_log :: "env \<Rightarrow> args \<Rightarrow> fs \<Rightarrow> event list \<Rightarrow> fs" where
  "write_log e a files evs =
     files(log_file a \<mapsto> render_log (asctime e) 0 (logged (verbose a) evs))"

definition COS_ENDPOINT :: "string \<Rightarrow> string \<Rightarrow> string" where
  "COS_ENDPOINT endpoint_type reg =
     ''https://s3'' @ endpoint_type @ ''.'' @ reg @ ''.cloud-object-storage.appdomain.cloud''"

text \<open>Lines 342 to 349: the resume point, or the way the program ends there.\<close>

definition resume_point :: "fs \<Rightarrow> args \<Rightarrow> (outcome \<times> event list) + (string \<times> int)" where
  "resume_point files a =
     (if resume a then
        (case get_last_object files (log_file a) 100 LOG_RE_PATTERN of
           Inl e \<Rightarrow> Inl (Uncaught e, [])
         | Inr None \<Rightarrow> Inl (Uncaught (TypeError ''cannot unpack non-iterable NoneType object''), [])
         | Inr (Some (last_object, last_index)) \<Rightarrow>
             (if last_object = [] then
                Inl (Exit 1,
                     [Print (Fore_RED @ ''Resume is not possible. Unable to retrieve last elaborated object from the log.'' @ nl),
                      Print (Style_RESET_ALL @ nl)])
              else Inr (last_object, last_index)))
      else Inr ([], - 1))"

text \<open>\<^verbatim>\<open>get_object_count\<close>: the count (or \<open>None\<close>) with the record it logs, or the exception.\<close>

definition get_object_count :: "env \<Rightarrow> string \<Rightarrow> event list \<times> (exn + int option)" where
  "get_object_count e bucket_name =
     (case get_bucket_config e bucket_name of
        Raises x \<Rightarrow> ([], Inl x)
      | Returns c \<Rightarrow>
          ([Log INFO (''Number of objects into the bucket: ''
                      @ (case c of None \<Rightarrow> ''None'' | Some n \<Rightarrow> str_int n))],
           Inr c))"

text \<open>Lines 362 to 373: the login, with the first record of the log.\<close>

definition login_events :: "args \<Rightarrow> event list" where
  "login_events a =
     (let endpoint_type = (if endpoint a \<noteq> ''public'' then ''.'' @ endpoint a else [])
      in [Print ''Login to IBM Cloud Object Storage... '',
          Log INFO (''Login to IBM Cloud Object Storage using '' @ endpoint a
                    @ '' endpoint ('' @ quoted (COS_ENDPOINT endpoint_type (region a)) @ '')''),
          Print (Fore_GREEN @ ''OK'' @ nl),
          Print (Style_RESET_ALL @ nl)])"

text \<open>
  Lines 375 to 381: the object count that \<^verbatim>\<open>restore_objects\<close> is given, or the way the
  program ends there. Comparing an absent count with 1 raises TypeError.
\<close>

definition object_count_step :: "env \<Rightarrow> args \<Rightarrow> event list \<times> (outcome + int)" where
  "object_count_step e a =
     (if \<not> truthy (prefix a) then
        (case get_object_count e (bucket a) of
           (evs, Inl x) \<Rightarrow> (evs, Inl (Uncaught x))
         | (evs, Inr None) \<Rightarrow>
             (evs, Inl (Uncaught (TypeError ''< not supported between NoneType and int'')))
         | (evs, Inr (Some object_count)) \<Rightarrow>
             (if object_count < 1 then
                (evs @ [Print (Fore_RED @ ''Unable to retrieve total objects.'' @ nl),
                        Print (Style_RESET_ALL @ nl)],
                 Inl (Exit 1))
              else (evs, Inr object_count)))
      else ([], Inr (- 1)))"

text \<open>
  \<^verbatim>\<open>main\<close>, after the arguments are parsed: how the process ends, the file system it
  leaves, and its events. Returning from \<^verbatim>\<open>main\<close> is \<^verbatim>\<open>sys.exit(None)\<close>, status 0;
  \<^verbatim>\<open>parser.error\<close> is status 2.
\<close>

definition main :: "env \<Rightarrow> fs \<Rightarrow> args \<Rightarrow> outcome \<times> fs \<times> event list" where
  "main e files a =
     (if threads a > size' a then
        (Exit 2, files, [Print (''Threads must be less or equal than size'' @ nl)])
      else
        (case resume_point files a of
           Inl (out, evs) \<Rightarrow> (out, files, evs)
         | Inr (last_object, last_index) \<Rightarrow>
             (let evs1 = login_events a;
                  (evs2, r) = object_count_step e a
              in case r of
                   Inl out \<Rightarrow> (out, write_log e a files (evs1 @ evs2), evs1 @ evs2)
                 | Inr object_count \<Rightarrow>
                     (let (evs3, status) =
                            restore_objects (Some (cos e)) (as_completed e) (bucket a) (size' a)
                              (prefix a) (threads a) (days a) last_object last_index object_count;
                          evs4 = [Print (''All restore are completed, status: ''
                                         @ (case status of None \<Rightarrow> ''None'' | Some s \<Rightarrow> Status_str s)
                                         @ nl)]
                      in (Exit 0, write_log e a files (evs1 @ evs2 @ evs3 @ evs4),
                          evs1 @ evs2 @ evs3 @ evs4)))))"

section \<open>Notions used in the statements\<close>

text \<open>The sum of the three counters of a Status.\<close>

definition total :: "Status \<Rightarrow> int" where
  "total s = error s + restored s + already_restored s"

text \<open>What a trace says: the tasks submitted, the restore calls, the listings, the page counts.\<close>

fun submitted :: "event list \<Rightarrow> (string \<times> int) list" where
  "submitted [] = []"
| "submitted (Submit k i # evs) = (k, i) # submitted evs"
| "submitted (_ # evs) = submitted evs"

fun restore_calls :: "event list \<Rightarrow> string list" where
  "restore_calls [] = []"
| "restore_calls (RestoreCall b k d # evs) = k # restore_calls evs"
| "restore_calls (_ # evs) = restore_calls evs"

fun list_calls :: "event list \<Rightarrow> list_request list" where
  "list_calls [] = []"
| "list_calls (ListCall r # evs) = r # list_calls evs"
| "list_calls (_ # evs) = list_calls evs"

fun progress_totals :: "event list \<Rightarrow> int option list" where
  "progress_totals [] = []"
| "progress_totals (ProgressTotal t # evs) = t # progress_totals evs"
| "progress_totals (_ # evs) = progress_totals evs"

text \<open>A list with consecutive numbers, starting from a given one.\<close>

fun number_from :: "int \<Rightarrow> 'a list \<Rightarrow> ('a \<times> int) list" where
  "number_from i [] = []"
| "number_from i (x # xs) = (x, i) # number_from (i + 1) xs"

text \<open>The objects of a listing, and a listing every page of which can be read.\<close>

fun all_objects :: "page_item list \<Rightarrow> obj list" where
  "all_objects [] = []"
| "all_objects (PageRaises e # rest) = all_objects rest"
| "all_objects (Page p # rest) =
     (case Contents p of None \<Rightarrow> [] | Some objects \<Rightarrow> objects) @ all_objects rest"

fun listing_ok :: "page_item list \<Rightarrow> bool" where
  "listing_ok [] = True"
| "listing_ok (PageRaises e # rest) = False"
| "listing_ok (Page p # rest) = (Contents p \<noteq> None \<and> listing_ok rest)"

text \<open>A client whose listings hold the eligible objects only.\<close>

fun drop_ineligible_item :: "page_item \<Rightarrow> page_item" where
  "drop_ineligible_item (PageRaises e) = PageRaises e"
| "drop_ineligible_item (Page p) = Page (p\<lparr>Contents := map_option (filter eligible) (Contents p)\<rparr>)"

definition drop_ineligible :: "cos_client \<Rightarrow> cos_client" where
  "drop_ineligible cli = cli\<lparr>paginate := (\<lambda>req. map drop_ineligible_item (paginate cli req))\<rparr>"

text \<open>One line of the log file.\<close>

definition log_line :: "string \<Rightarrow> level \<Rightarrow> string \<Rightarrow> string" where
  "log_line ts l m = ts @ '' - '' @ level_name l @ '' - '' @ m @ nl"

subsection \<open>A small bucket, for the concrete runs\<close>

definition ongoing_true :: string where
  "ongoing_true = ''ongoing-request='' @ [CHR 0x22] @ ''true'' @ [CHR 0x22]"

definition demo_cli :: cos_client where
  "demo_cli =
     \<lparr>head_object = (\<lambda>b k.
         if k = ''done'' then Returns (Some \<lparr>Restore = Some (ongoing_false @ '', expiry-date=x'')\<rparr>)
         else if k = ''busy'' then Returns (Some \<lparr>Restore = Some ongoing_true\<rparr>)
         else if k = ''gone'' then Returns None
         else if k = ''denied'' then Raises (ClientError ''Forbidden'')
         else Returns (Some \<lparr>Restore = None\<rparr>)),
      restore_object_rpc = (\<lambda>b k d.
         if k = ''frozen'' then Raises (ClientError ''InvalidObjectState'') else Returns ()),
      paginate = (\<lambda>req.
         if StartAfter req = [] then
           [Page \<lparr>Contents = Some [\<lparr>Key = ''k1'', StorageClass = ''GLACIER''\<rparr>,
                                   \<lparr>Key = ''k2'', StorageClass = ''STANDARD''\<rparr>,
                                   \<lparr>Key = ''k3'', StorageClass = ''ACCELERATED''\<rparr>]\<rparr>]
         else if StartAfter req = ''b/002.bin'' then
           [Page \<lparr>Contents = Some [\<lparr>Key = ''b/003.bin'', StorageClass = ''GLACIER''\<rparr>,
                                   \<lparr>Key = ''b/004.bin'', StorageClass = ''STANDARD''\<rparr>]\<rparr>,
            Page \<lparr>Contents = Some [\<lparr>Key = ''done'', StorageClass = ''GLACIER''\<rparr>]\<rparr>]
         else [PageRaises (ClientError ''AccessDenied'')])\<rparr>"

definition mixed_pages :: "page_item list" where
  "mixed_pages =
     [Page \<lparr>Contents = Some [\<lparr>Key = ''denied'', StorageClass = ''GLACIER''\<rparr>,
                             \<lparr>Key = ''k1'', StorageClass = ''GLACIER''\<rparr>]\<rparr>,
      Page \<lparr>Contents = Some [\<lparr>Key = ''frozen'', StorageClass = ''ACCELERATED''\<rparr>,
                             \<lparr>Key = ''gone'', StorageClass = ''GLACIER''\<rparr>]\<rparr>]"

definition failing_cli :: cos_client where
  "failing_cli = demo_cli\<lparr>paginate := (\<lambda>req. [PageRaises (ClientError ''AccessDenied'')])\<rparr>"

definition demo_env :: env where
  "demo_env = \<lparr>cos = demo_cli, get_bucket_config = (\<lambda>b. Returns (Some 3)),
               as_completed = rev, asctime = (\<lambda>n. ''2024-05-02 10:00:00,000'')\<rparr>"

definition failing_env :: env where
  "failing_env = demo_env\<lparr>cos := failing_cli\<rparr>"

definition demo_args :: args where
  "demo_args = \<lparr>apikey = ''key'', bucket = ''bkt'', prefix = None, resume = False,
                log_file = ''unarchive.log'', crn = ''crn'', region = ''eu-de'',
                endpoint = ''public'', days = 5, size' = 10, threads = 2, verbose = False\<rparr>"

definition resume_args :: args where
  "resume_args = demo_args\<lparr>resume := True\<rparr>"

text \<open>Logs of earlier runs.\<close>

definition old_record :: string where
  "old_record = log_line ''2024-05-01 09:00:00,000'' INFO (msg_restored ''b/002.bin'' 7)"

definition old_files :: fs where
  "old_files = [''unarchive.log'' \<mapsto> old_record]"

definition two_records :: string where
  "two_records =
     log_line ''2024-05-01 09:00:00,000'' INFO (msg_restored ''a'' 0)
     @ log_line ''2024-05-01 09:00:01,000'' INFO (msg_restored ''b'' 1)"

definition short_files :: fs where
  "short_files = [''unarchive.log'' \<mapsto> two_records]"

definition other_files :: fs where
  "other_files = [''unarchive.log'' \<mapsto> old_record,
                  ''restore.log'' \<mapsto> log_line ''2024-05-01 09:00:00,000'' INFO (msg_restored ''z'' 3)]"

definition chatter_files :: fs where
  "chatter_files =
     [''unarchive.log'' \<mapsto> log_line ''2024-05-01 09:00:00,000'' INFO ''Page count: 3'']"

section \<open>Facts about the loops\<close>

lemma restore_object_total: "total (snd (restore_object cli b k d i)) = 1"
  by (simp add: restore_object_def restore_object_try_def total_def
      split: resp.splits option.splits unit.splits)

lemma add_result_total: "total (add_result s r) = total s + total r"
  by (simp add: add_result_def total_def increment_error_def increment_restored_def
      increment_already_restored_def)

lemma foldl_add_result_total:
  "total (foldl add_result s rs) = total s + sum_list (map total rs)"
  by (induction rs arbitrary: s) (simp_all add: add_result_total)

lemma fold_results_total:
  "total (fold_results s rs) = total s + sum_list (map total rs)"
  by (simp add: fold_results_def foldl_add_result_total)

lemma sum_list_total_perm:
  assumes "mset rs' = mset rs"
  shows "sum_list (map total rs') = sum_list (map total rs)"
proof -
  have "mset (map total rs') = mset (map total rs)"
    using assms by (metis mset_map)
  then show ?thesis by (metis sum_mset_sum_list)
qed

lemma submit_all_results:
  "length (fst (snd (submit_all cli b d i ks))) = length ks
   \<and> sum_list (map total (fst (snd (submit_all cli b d i ks)))) = int (length ks)
   \<and> snd (snd (submit_all cli b d i ks)) = i + int (length ks)"
proof (induction ks arbitrary: i)
  case Nil
  show ?case by simp
next
  case (Cons k ks)
  obtain evs r where ro: "restore_object cli b k d i = (evs, r)" by (cases "restore_object cli b k d i")
  obtain evs' rs i' where sa: "submit_all cli b d (i + 1) ks = (evs', rs, i')"
    by (cases "submit_all cli b d (i + 1) ks")
  have "total r = 1" using restore_object_total [of cli b k d i] ro by simp
  with Cons [of "i + 1"] ro sa show ?case by simp
qed

lemma submitted_append: "submitted (xs @ ys) = submitted xs @ submitted ys"
  by (induction xs rule: submitted.induct) simp_all

lemma list_calls_append: "list_calls (xs @ ys) = list_calls xs @ list_calls ys"
  by (induction xs rule: list_calls.induct) simp_all

lemma progress_totals_append: "progress_totals (xs @ ys) = progress_totals xs @ progress_totals ys"
  by (induction xs rule: progress_totals.induct) simp_all

lemma restore_calls_append: "restore_calls (xs @ ys) = restore_calls xs @ restore_calls ys"
  by (induction xs rule: restore_calls.induct) simp_all

lemma restore_object_quiet:
  "submitted (fst (restore_object cli b k d i)) = []
   \<and> list_calls (fst (restore_object cli b k d i)) = []
   \<and> progress_totals (fst (restore_object cli b k d i)) = []"
  by (simp add: restore_object_def restore_object_try_def
      split: resp.splits option.splits unit.splits)

lemma number_from_append:
  "number_from i (xs @ ys) = number_from i xs @ number_from (i + int (length xs)) ys"
  by (induction xs arbitrary: i) (simp_all add: add.assoc)

lemma number_from_fst: "map fst (number_from i xs) = xs"
  by (induction xs arbitrary: i) simp_all

lemma number_from_snd: "map snd (number_from i xs) = map (\<lambda>j. i + int j) [0..<length xs]"
proof (induction xs arbitrary: i)
  case Nil
  show ?case by simp
next
  case (Cons x xs)
  have "map (\<lambda>j. i + int j) [0..<length (x # xs)]
        = (i + int 0) # map (\<lambda>j. i + int j) (map Suc [0..<length xs])"
    by (simp add: upt_conv_Cons map_Suc_upt del: upt_Suc)
  also have "\<dots> = i # map (\<lambda>j. (i + 1) + int j) [0..<length xs]"
    by (simp add: add.assoc)
  finally show ?case using Cons [of "i + 1"] by simp
qed

lemma submit_all_trace:
  "submitted (fst (submit_all cli b d i ks)) = number_from i ks
   \<and> list_calls (fst (submit_all cli b d i ks)) = []
   \<and> progress_totals (fst (submit_all cli b d i ks)) = []"
proof (induction ks arbitrary: i)
  case Nil
  show ?case by simp
next
  case (Cons k ks)
  obtain evs r where ro: "restore_object cli b k d i = (evs, r)" by (cases "restore_object cli b k d i")
  obtain evs' rs i' where sa: "submit_all cli b d (i + 1) ks = (evs', rs, i')"
    by (cases "submit_all cli b d (i + 1) ks")
  from Cons [of "i + 1"] ro sa restore_object_quiet [of cli b k d i]
  show ?case by (simp add: submitted_append list_calls_append progress_totals_append)
qed

lemma pages_loop_trace:
  "\<exists>objs. submitted (fst (pages_loop cli ac b th d pages i st))
            = number_from i (map Key (filter eligible objs))
     \<and> set objs \<subseteq> set (all_objects pages)
     \<and> (\<forall>st'. snd (pages_loop cli ac b th d pages i st) = Inr st' \<longrightarrow> objs = all_objects pages)"
proof (induction pages arbitrary: i st)
  case Nil
  show ?case by (intro exI [of _ "[]"]) simp
next
  case (Cons item rest)
  show ?case
  proof (cases item)
    case (PageRaises e)
    then show ?thesis by (intro exI [of _ "[]"]) simp
  next
    case (Page p)
    show ?thesis
    proof (cases "Contents p")
      case None
      with Page show ?thesis by (intro exI [of _ "[]"]) simp
    next
      case (Some objects)
      show ?thesis
      proof (cases "th \<le> 0")
        case True
        with Page Some show ?thesis by (intro exI [of _ "[]"]) simp
      next
        case False
        let ?ks = "map Key (filter eligible objects)"
        obtain evs rs i' where sa: "submit_all cli b d i ?ks = (evs, rs, i')"
          by (cases "submit_all cli b d i ?ks")
        obtain evs' r where pl:
          "pages_loop cli ac b th d rest i' (fold_results st (ac rs)) = (evs', r)"
          by (cases "pages_loop cli ac b th d rest i' (fold_results st (ac rs))")
        have i': "i' = i + int (length ?ks)"
          using submit_all_results [of cli b d i ?ks] sa by simp
        have ev: "submitted evs = number_from i ?ks"
          using submit_all_trace [of cli b d i ?ks] sa by simp
        from Cons [of i' "fold_results st (ac rs)"] pl obtain objs where
          o1: "submitted evs' = number_from i' (map Key (filter eligible objs))"
          and o2: "set objs \<subseteq> set (all_objects rest)"
          and o3: "\<forall>st'. r = Inr st' \<longrightarrow> objs = all_objects rest"
          by auto
        have whole: "pages_loop cli ac b th d (item # rest) i st = (evs @ evs', r)"
          using Page Some False sa pl by simp
        have "submitted (evs @ evs') = number_from i (map Key (filter eligible (objects @ objs)))"
          using ev o1 i' by (simp add: submitted_append number_from_append)
        moreover have "set (objects @ objs) \<subseteq> set (all_objects (item # rest))"
          using o2 Page Some by auto
        moreover have "\<forall>st'. r = Inr st' \<longrightarrow> objects @ objs = all_objects (item # rest)"
          using o3 Page Some by simp
        ultimately show ?thesis using whole by (metis fst_conv snd_conv)
      qed
    qed
  qed
qed

lemma pages_loop_quiet:
  "list_calls (fst (pages_loop cli ac b th d pages i st)) = []
   \<and> progress_totals (fst (pages_loop cli ac b th d pages i st)) = []"
proof (induction pages arbitrary: i st)
  case Nil
  show ?case by simp
next
  case (Cons item rest)
  show ?case
  proof (cases item)
    case (PageRaises e)
    then show ?thesis by simp
  next
    case (Page p)
    show ?thesis
    proof (cases "Contents p")
      case None
      with Page show ?thesis by simp
    next
      case (Some objects)
      let ?ks = "map Key (filter eligible objects)"
      obtain evs rs i' where sa: "submit_all cli b d i ?ks = (evs, rs, i')"
        by (cases "submit_all cli b d i ?ks")
      obtain evs' r where pl:
        "pages_loop cli ac b th d rest i' (fold_results st (ac rs)) = (evs', r)"
        by (cases "pages_loop cli ac b th d rest i' (fold_results st (ac rs))")
      from Cons [of i' "fold_results st (ac rs)"] pl submit_all_trace [of cli b d i ?ks] sa
      show ?thesis using Page Some
        by (simp add: list_calls_append progress_totals_append)
    qed
  qed
qed

lemma pages_loop_total:
  assumes perm: "\<And>rs. mset (ac rs) = mset rs"
  shows "snd (pages_loop cli ac b th d pages i st) = Inr st'
         \<Longrightarrow> total st' = total st + int (length (filter eligible (all_objects pages)))"
proof (induction pages arbitrary: i st)
  case Nil
  then show ?case by simp
next
  case (Cons item rest)
  show ?case
  proof (cases item)
    case (PageRaises e)
    with Cons.prems show ?thesis by simp
  next
    case (Page p)
    show ?thesis
    proof (cases "Contents p")
      case None
      with Page Cons.prems show ?thesis by simp
    next
      case (Some objects)
      show ?thesis
      proof (cases "th \<le> 0")
        case True
        with Page Some Cons.prems show ?thesis by simp
      next
        case False
        let ?ks = "map Key (filter eligible objects)"
        obtain evs rs i' where sa: "submit_all cli b d i ?ks = (evs, rs, i')"
          by (cases "submit_all cli b d i ?ks")
        obtain evs' r where pl:
          "pages_loop cli ac b th d rest i' (fold_results st (ac rs)) = (evs', r)"
          by (cases "pages_loop cli ac b th d rest i' (fold_results st (ac rs))")
        have r: "r = Inr st'" using Cons.prems Page Some False sa pl by simp
        have "sum_list (map total rs) = int (length ?ks)"
          using submit_all_results [of cli b d i ?ks] sa by simp
        then have "sum_list (map total (ac rs)) = int (length (filter eligible objects))"
          using sum_list_total_perm [OF perm [of rs]] by simp
        then have "total (fold_results st (ac rs)) = total st + int (length (filter eligible objects))"
          by (simp add: fold_results_total)
        moreover have "total st' = total (fold_results st (ac rs))
                         + int (length (filter eligible (all_objects rest)))"
          using Cons.IH [of i' "fold_results st (ac rs)"] pl r by simp
        ultimately show ?thesis using Page Some by simp
      qed
    qed
  qed
qed


lemma get_page_count_quiet:
  "submitted (fst (get_page_count (Some cli) b mk pre sa)) = []
   \<and> progress_totals (fst (get_page_count (Some cli) b mk pre sa)) = []
   \<and> set (list_calls (fst (get_page_count (Some cli) b mk pre sa))) \<subseteq> {listing b mk pre sa}"
proof (cases "count_pages (paginate cli (listing b mk pre sa))")
  case (Inr n)
  then show ?thesis by (simp add: get_page_count_def)
next
  case (Inl e)
  then show ?thesis by (cases e) (simp_all add: get_page_count_def)
qed

lemma page_count_of_quiet:
  "submitted (fst (page_count_of cli b mk pre sa si oc)) = []
   \<and> progress_totals (fst (page_count_of cli b mk pre sa si oc)) = []
   \<and> set (list_calls (fst (page_count_of cli b mk pre sa si oc))) \<subseteq> {listing b mk pre sa}"
proof (cases "truthy pre")
  case True
  obtain evs n where g: "get_page_count (Some cli) b mk pre sa = (evs, n)"
    by (cases "get_page_count (Some cli) b mk pre sa")
  with True get_page_count_quiet [of cli b mk pre sa] show ?thesis
    by (simp add: page_count_of_def)
next
  case False
  then show ?thesis
    by (simp add: page_count_of_def ceil_div_def)
qed

lemma restore_objects_try_shape:
  "(\<exists>pevs e. restore_objects_try (Some cli) ac b mk pre th d sa si oc
               = (ListCall (listing b mk pre sa) # pevs, Inl e)
            \<and> page_count_of cli b mk pre sa si oc = (pevs, Inl e))
   \<or> (\<exists>pevs pc levs r. restore_objects_try (Some cli) ac b mk pre th d sa si oc
               = (ListCall (listing b mk pre sa) # pevs @ [ProgressTotal pc] @ levs, r)
            \<and> page_count_of cli b mk pre sa si oc = (pevs, Inr pc)
            \<and> pages_loop cli ac b th d (paginate cli (listing b mk pre sa)) (si + 1)
                 (new_Status 0 0 0) = (levs, r))"
proof -
  obtain pevs pr where pc: "page_count_of cli b mk pre sa si oc = (pevs, pr)"
    by (cases "page_count_of cli b mk pre sa si oc")
  obtain levs r where pl:
    "pages_loop cli ac b th d (paginate cli (listing b mk pre sa)) (si + 1) (new_Status 0 0 0)
       = (levs, r)"
    by (cases "pages_loop cli ac b th d (paginate cli (listing b mk pre sa)) (si + 1)
                 (new_Status 0 0 0)")
  have idx: "(if si = - 1 then 0 else si + 1) = si + 1" by simp
  show ?thesis
  proof (cases pr)
    case (Inl e)
    with pc show ?thesis by (simp add: restore_objects_try_def)
  next
    case (Inr n)
    with pc pl show ?thesis by (simp add: restore_objects_try_def idx del: One_nat_def)
  qed
qed

lemma handler_quiet:
  "submitted (evs @ [Print x, Log l y]) = submitted evs
   \<and> list_calls (evs @ [Print x, Log l y]) = list_calls evs
   \<and> progress_totals (evs @ [Print x, Log l y]) = progress_totals evs"
  by (simp add: submitted_append list_calls_append progress_totals_append)

lemma restore_objects_trace:
  "submitted (fst (restore_objects cc ac b mk pre th d sa si oc))
     = submitted (fst (restore_objects_try cc ac b mk pre th d sa si oc))
   \<and> list_calls (fst (restore_objects cc ac b mk pre th d sa si oc))
     = list_calls (fst (restore_objects_try cc ac b mk pre th d sa si oc))
   \<and> progress_totals (fst (restore_objects cc ac b mk pre th d sa si oc))
     = progress_totals (fst (restore_objects_try cc ac b mk pre th d sa si oc))
   \<and> (snd (restore_objects cc ac b mk pre th d sa si oc) = Some st
       \<longleftrightarrow> snd (restore_objects_try cc ac b mk pre th d sa si oc) = Inr st)"
proof -
  obtain evs r where t: "restore_objects_try cc ac b mk pre th d sa si oc = (evs, r)"
    by (cases "restore_objects_try cc ac b mk pre th d sa si oc")
  show ?thesis
  proof (cases r)
    case (Inr s)
    with t show ?thesis by (simp add: restore_objects_def)
  next
    case (Inl e)
    with t show ?thesis
      by (cases e) (simp_all add: restore_objects_def handler_quiet)
  qed
qed

lemma restore_objects_submitted:
  "\<exists>objs. submitted (fst (restore_objects (Some cli) ac b mk pre th d sa si oc))
            = number_from (si + 1) (map Key (filter eligible objs))
     \<and> set objs \<subseteq> set (all_objects (paginate cli (listing b mk pre sa)))
     \<and> (\<forall>st. snd (restore_objects (Some cli) ac b mk pre th d sa si oc) = Some st
          \<longrightarrow> objs = all_objects (paginate cli (listing b mk pre sa)))"
proof -
  let ?pages = "paginate cli (listing b mk pre sa)"
  from restore_objects_try_shape [of cli ac b mk pre th d sa si oc]
  show ?thesis
  proof (elim disjE exE conjE)
    fix pevs e
    assume t: "restore_objects_try (Some cli) ac b mk pre th d sa si oc
                 = (ListCall (listing b mk pre sa) # pevs, Inl e)"
      and pc: "page_count_of cli b mk pre sa si oc = (pevs, Inl e)"
    have "submitted pevs = []" using page_count_of_quiet [of cli b mk pre sa si oc] pc by simp
    with t restore_objects_trace [of "Some cli" ac b mk pre th d sa si oc]
    show ?thesis by (intro exI [of _ "[]"]) simp
  next
    fix pevs pc levs r
    assume t: "restore_objects_try (Some cli) ac b mk pre th d sa si oc
                 = (ListCall (listing b mk pre sa) # pevs @ [ProgressTotal pc] @ levs, r)"
      and pc: "page_count_of cli b mk pre sa si oc = (pevs, Inr pc)"
      and pl: "pages_loop cli ac b th d ?pages (si + 1) (new_Status 0 0 0) = (levs, r)"
    have q: "submitted pevs = []" using page_count_of_quiet [of cli b mk pre sa si oc] pc by simp
    from pages_loop_trace [of cli ac b th d ?pages "si + 1" "new_Status 0 0 0"] pl
    obtain objs where
      o1: "submitted levs = number_from (si + 1) (map Key (filter eligible objs))"
      and o2: "set objs \<subseteq> set (all_objects ?pages)"
      and o3: "\<forall>st'. r = Inr st' \<longrightarrow> objs = all_objects ?pages"
      by auto
    have "submitted (fst (restore_objects (Some cli) ac b mk pre th d sa si oc)) = submitted levs"
      using t q restore_objects_trace [of "Some cli" ac b mk pre th d sa si oc]
      by (simp add: submitted_append)
    moreover have "\<forall>st. snd (restore_objects (Some cli) ac b mk pre th d sa si oc) = Some st
                     \<longrightarrow> r = Inr st"
      using t restore_objects_trace [of "Some cli" ac b mk pre th d sa si oc] by simp
    ultimately show ?thesis using o1 o2 o3 by (intro exI [of _ objs]) simp
  qed
qed

lemma restore_objects_list_calls:
  "set (list_calls (fst (restore_objects cc ac b mk pre th d sa si oc))) \<subseteq> {listing b mk pre sa}"
proof (cases cc)
  case None
  then show ?thesis
    using restore_objects_trace [of cc ac b mk pre th d sa si oc]
    by (simp add: restore_objects_try_def)
next
  case (Some cli)
  from restore_objects_try_shape [of cli ac b mk pre th d sa si oc]
  show ?thesis
  proof (elim disjE exE conjE)
    fix pevs e
    assume t: "restore_objects_try (Some cli) ac b mk pre th d sa si oc
                 = (ListCall (listing b mk pre sa) # pevs, Inl e)"
      and pc: "page_count_of cli b mk pre sa si oc = (pevs, Inl e)"
    show ?thesis
      using t Some page_count_of_quiet [of cli b mk pre sa si oc] pc
        restore_objects_trace [of cc ac b mk pre th d sa si oc]
      by simp
  next
    fix pevs pc levs r
    assume t: "restore_objects_try (Some cli) ac b mk pre th d sa si oc
                 = (ListCall (listing b mk pre sa) # pevs @ [ProgressTotal pc] @ levs, r)"
      and pc: "page_count_of cli b mk pre sa si oc = (pevs, Inr pc)"
      and pl: "pages_loop cli ac b th d (paginate cli (listing b mk pre sa)) (si + 1)
                 (new_Status 0 0 0) = (levs, r)"
    have "list_calls levs = []"
      using pages_loop_quiet [of cli ac b th d "paginate cli (listing b mk pre sa)" "si + 1"
          "new_Status 0 0 0"] pl by simp
    then show ?thesis
      using t Some page_count_of_quiet [of cli b mk pre sa si oc] pc
        restore_objects_trace [of cc ac b mk pre th d sa si oc]
      by (simp add: list_calls_append)
  qed
qed

lemma restore_objects_total:
  assumes perm: "\<And>rs. mset (ac rs) = mset rs"
    and run: "snd (restore_objects (Some cli) ac b mk pre th d sa si oc) = Some st"
  shows "total st = int (length (filter eligible (all_objects (paginate cli (listing b mk pre sa)))))"
proof -
  have r: "snd (restore_objects_try (Some cli) ac b mk pre th d sa si oc) = Inr st"
    using run restore_objects_trace [of "Some cli" ac b mk pre th d sa si oc st] by simp
  from restore_objects_try_shape [of cli ac b mk pre th d sa si oc] r
  obtain levs where
    "pages_loop cli ac b th d (paginate cli (listing b mk pre sa)) (si + 1) (new_Status 0 0 0)
       = (levs, Inr st)"
    by auto
  then show ?thesis
    using pages_loop_total [of ac cli b th d "paginate cli (listing b mk pre sa)" "si + 1"
        "new_Status 0 0 0" st] perm
    by (simp add: total_def)
qed


lemma restore_object_drop:
  "restore_object (drop_ineligible cli) b k d i = restore_object cli b k d i"
  by (simp add: restore_object_def restore_object_try_def drop_ineligible_def
      split: resp.splits option.splits)

lemma submit_all_drop:
  "submit_all (drop_ineligible cli) b d i ks = submit_all cli b d i ks"
  by (induction ks arbitrary: i) (simp_all add: restore_object_drop)

lemma pages_loop_drop:
  "pages_loop (drop_ineligible cli) ac b th d (map drop_ineligible_item pages) i st
     = pages_loop cli ac b th d pages i st"
proof (induction pages arbitrary: i st)
  case Nil
  show ?case by simp
next
  case (Cons item rest)
  show ?case
  proof (cases item)
    case (PageRaises e)
    then show ?thesis by simp
  next
    case (Page p)
    show ?thesis
    proof (cases "Contents p")
      case None
      with Page show ?thesis by simp
    next
      case (Some objects)
      with Page Cons show ?thesis by (simp add: submit_all_drop)
    qed
  qed
qed

lemma count_pages_drop: "count_pages (map drop_ineligible_item pages) = count_pages pages"
proof (induction pages)
  case Nil
  show ?case by simp
next
  case (Cons item rest)
  then show ?case by (cases item) simp_all
qed

lemma paginate_drop:
  "paginate (drop_ineligible cli) req = map drop_ineligible_item (paginate cli req)"
  by (simp add: drop_ineligible_def)

lemma get_page_count_drop:
  "get_page_count (Some (drop_ineligible cli)) b mk pre sa = get_page_count (Some cli) b mk pre sa"
  by (simp add: get_page_count_def paginate_drop count_pages_drop)

lemma page_count_of_drop:
  "page_count_of (drop_ineligible cli) b mk pre sa si oc = page_count_of cli b mk pre sa si oc"
  by (simp add: page_count_of_def get_page_count_drop)

lemma restore_objects_try_drop:
  "restore_objects_try (Some (drop_ineligible cli)) ac b mk pre th d sa si oc
     = restore_objects_try (Some cli) ac b mk pre th d sa si oc"
  by (simp add: restore_objects_try_def paginate_drop pages_loop_drop page_count_of_drop)

lemma restore_objects_drop:
  "restore_objects (Some (drop_ineligible cli)) ac b mk pre th d sa si oc
     = restore_objects (Some cli) ac b mk pre th d sa si oc"
  by (simp add: restore_objects_def restore_objects_try_drop)

lemma number_from_keys:
  "set (map fst (number_from i (map Key (filter eligible objs)))) = Key ` {ob \<in> set objs. eligible ob}"
  by (simp add: number_from_fst)

lemma pages_loop_returns:
  "0 < th \<Longrightarrow> listing_ok pages \<Longrightarrow> \<exists>st'. snd (pages_loop cli ac b th d pages i st) = Inr st'"
proof (induction pages arbitrary: i st)
  case Nil
  show ?case by simp
next
  case (Cons item rest)
  show ?case
  proof (cases item)
    case (PageRaises e)
    with Cons.prems show ?thesis by simp
  next
    case (Page p)
    with Cons.prems obtain objects where c: "Contents p = Some objects" by auto
    let ?ks = "map Key (filter eligible objects)"
    obtain evs rs i' where sa: "submit_all cli b d i ?ks = (evs, rs, i')"
      by (cases "submit_all cli b d i ?ks")
    obtain evs' r where pl:
      "pages_loop cli ac b th d rest i' (fold_results st (ac rs)) = (evs', r)"
      by (cases "pages_loop cli ac b th d rest i' (fold_results st (ac rs))")
    from Cons.IH [of i' "fold_results st (ac rs)"] Cons.prems Page pl
    obtain st' where "r = Inr st'" by auto
    with Page c sa pl Cons.prems(1) show ?thesis by simp
  qed
qed

lemma object_count_step_quiet:
  "submitted (fst (object_count_step e a)) = [] \<and> list_calls (fst (object_count_step e a)) = []"
proof (cases "truthy (prefix a)")
  case True
  then show ?thesis by (simp add: object_count_step_def)
next
  case False
  show ?thesis
  proof (cases "get_bucket_config e (bucket a)")
    case (Raises x)
    with False show ?thesis by (simp add: object_count_step_def get_object_count_def)
  next
    case (Returns c)
    with False show ?thesis
      by (cases c) (simp_all add: object_count_step_def get_object_count_def)
  qed
qed

lemma login_events_quiet:
  "submitted (login_events a) = [] \<and> list_calls (login_events a) = []"
  by (simp add: login_events_def)

lemma resume_point_quiet:
  "resume_point files a = Inl (out, evs) \<Longrightarrow> submitted evs = [] \<and> list_calls evs = []"
  by (auto simp add: resume_point_def split: if_splits sum.splits option.splits)

lemma main_trace:
  "(submitted (snd (snd (main e files a))) = [] \<and> list_calls (snd (snd (main e files a))) = [])
   \<or> (\<exists>K I oc. resume_point files a = Inr (K, I)
         \<and> submitted (snd (snd (main e files a)))
             = submitted (fst (restore_objects (Some (cos e)) (as_completed e) (bucket a) (size' a)
                                 (prefix a) (threads a) (days a) K I oc))
         \<and> list_calls (snd (snd (main e files a)))
             = list_calls (fst (restore_objects (Some (cos e)) (as_completed e) (bucket a) (size' a)
                                 (prefix a) (threads a) (days a) K I oc)))"
proof (cases "threads a > size' a")
  case True
  then show ?thesis by (simp add: main_def)
next
  case False
  show ?thesis
  proof (cases "resume_point files a")
    case (Inl x)
    obtain out evs where x: "x = (out, evs)" by (cases x)
    with Inl False resume_point_quiet [of files a out evs] show ?thesis
      by (simp add: main_def)
  next
    case (Inr p)
    obtain K I where p: "p = (K, I)" by (cases p)
    obtain evs2 r where oc: "object_count_step e a = (evs2, r)"
      by (cases "object_count_step e a")
    have q2: "submitted evs2 = [] \<and> list_calls evs2 = []"
      using object_count_step_quiet [of e a] oc by simp
    show ?thesis
    proof (cases r)
      case (Inl out)
      with Inr p False oc q2 login_events_quiet [of a] show ?thesis
        by (simp add: main_def Let_def submitted_append list_calls_append)
    next
      case (Inr n)
      obtain evs3 status where ro:
        "restore_objects (Some (cos e)) (as_completed e) (bucket a) (size' a)
           (prefix a) (threads a) (days a) K I n = (evs3, status)"
        by (cases "restore_objects (Some (cos e)) (as_completed e) (bucket a) (size' a)
                     (prefix a) (threads a) (days a) K I n")
      have "snd (snd (main e files a))
              = login_events a @ evs2 @ evs3
                @ [Print (''All restore are completed, status: ''
                          @ (case status of None \<Rightarrow> ''None'' | Some s \<Rightarrow> Status_str s) @ nl)]"
        using \<open>resume_point files a = Inr p\<close> p False oc Inr ro by (simp add: main_def Let_def)
      then have "submitted (snd (snd (main e files a))) = submitted evs3
                 \<and> list_calls (snd (snd (main e files a))) = list_calls evs3"
        using q2 login_events_quiet [of a] by (simp add: submitted_append list_calls_append)
      with \<open>resume_point files a = Inr p\<close> p ro show ?thesis
        by (intro disjI2 exI [of _ K] exI [of _ I] exI [of _ n]) simp
    qed
  qed
qed

lemma numbered_consecutive:
  assumes "xs = number_from i ys"
  shows "map snd xs = map (\<lambda>j. i + int j) [0..<length xs]"
proof -
  have "length xs = length ys" using assms by (metis length_map number_from_fst)
  then show ?thesis using assms by (simp add: number_from_snd)
qed

lemma restore_objects_progress:
  assumes "\<not> truthy pre" and "mk \<noteq> 0"
  shows "progress_totals (fst (restore_objects (Some cli) ac b mk pre th d sa si oc))
           = [Some (if sa = [] then \<lceil>real_of_int oc / real_of_int mk\<rceil>
                    else \<lceil>real_of_int (oc - si) / real_of_int mk\<rceil>)]"
proof -
  let ?n = "if sa = [] then \<lceil>real_of_int oc / real_of_int mk\<rceil>
            else \<lceil>real_of_int (oc - si) / real_of_int mk\<rceil>"
  have pc: "page_count_of cli b mk pre sa si oc = ([], Inr (Some ?n))"
    using assms by (simp add: page_count_of_def ceil_div_def)
  from restore_objects_try_shape [of cli ac b mk pre th d sa si oc] pc
  obtain levs r where
    t: "restore_objects_try (Some cli) ac b mk pre th d sa si oc
          = (ListCall (listing b mk pre sa) # [] @ [ProgressTotal (Some ?n)] @ levs, r)"
    and pl: "pages_loop cli ac b th d (paginate cli (listing b mk pre sa)) (si + 1)
               (new_Status 0 0 0) = (levs, r)"
    by auto
  have "progress_totals levs = []"
    using pages_loop_quiet [of cli ac b th d "paginate cli (listing b mk pre sa)" "si + 1"
        "new_Status 0 0 0"] pl by simp
  then show ?thesis
    using t restore_objects_trace [of "Some cli" ac b mk pre th d sa si oc] by simp
qed

lemma logged_append: "logged v (xs @ ys) = logged v xs @ logged v ys"
  by (induction v xs rule: logged.induct) simp_all

lemma render_log_append:
  "render_log clock n (xs @ ys) = render_log clock n xs @ render_log clock (n + length xs) ys"
  by (induction xs arbitrary: n) auto

lemma main_files:
  "(threads a \<le> size' a \<and> resume_point files a = Inr p \<longrightarrow>
      fst (snd (main e files a)) = write_log e a files (snd (snd (main e files a))))
   \<and> (size' a < threads a \<or> resume_point files a = Inl x \<longrightarrow> fst (snd (main e files a)) = files)"
proof -
  have a: "size' a < threads a \<or> resume_point files a = Inl x \<longrightarrow> fst (snd (main e files a)) = files"
    by (cases x) (auto simp add: main_def)
  have b: "fst (snd (main e files a)) = write_log e a files (snd (snd (main e files a)))"
    if le: "threads a \<le> size' a" and rp: "resume_point files a = Inr p"
  proof -
    obtain K I where p: "p = (K, I)" by (cases p)
    obtain evs2 r where oc: "object_count_step e a = (evs2, r)"
      by (cases "object_count_step e a")
    show ?thesis
    proof (cases r)
      case (Inl out)
      with le rp p oc show ?thesis by (simp add: main_def Let_def)
    next
      case (Inr n)
      obtain evs3 status where ro:
        "restore_objects (Some (cos e)) (as_completed e) (bucket a) (size' a)
           (prefix a) (threads a) (days a) K I n = (evs3, status)"
        by (cases "restore_objects (Some (cos e)) (as_completed e) (bucket a) (size' a)
                     (prefix a) (threads a) (days a) K I n")
      with le rp p oc Inr show ?thesis by (simp add: main_def Let_def)
    qed
  qed
  from a b show ?thesis by blast
qed

section \<open>The Dispatcher and the Object Restorer\<close>

text \<open>
  Claim C1. When the scheduler hands back every finished task once and the run returns a
  job status, the three counters of that status add up to the number of eligible objects
  of the listing, and as many tasks were submitted. For each page, the number of outcomes
  folded into the status is the number of eligible objects of the page, and the fold
  raises the sum of the counters by exactly that number.
\<close>

theorem restore_objects_counts_each_eligible_object:
  assumes "\<forall>rs. mset (ac rs) = mset rs"
    and "snd (restore_objects (Some cli) ac b mk pre th d sa si oc) = Some st"
  shows "error st + restored st + already_restored st
           = int (length (filter eligible (all_objects (paginate cli (listing b mk pre sa)))))
         \<and> length (submitted (fst (restore_objects (Some cli) ac b mk pre th d sa si oc)))
           = length (filter eligible (all_objects (paginate cli (listing b mk pre sa))))
         \<and> length (ac (fst (snd (submit_all cli b d i (map Key (filter eligible objects))))))
           = length (filter eligible objects)
         \<and> total (fold_results st0 (ac (fst (snd (submit_all cli b d i (map Key (filter eligible objects))))))) 
           = total st0 + int (length (filter eligible objects))"
proof -
  let ?pages = "paginate cli (listing b mk pre sa)"
  let ?rs = "fst (snd (submit_all cli b d i (map Key (filter eligible objects))))"
  have perm: "\<And>rs. mset (ac rs) = mset rs" using assms(1) by simp
  have a: "total st = int (length (filter eligible (all_objects ?pages)))"
    using restore_objects_total [of ac cli b mk pre th d sa si oc st] perm assms(2) by simp
  from restore_objects_submitted [of cli ac b mk pre th d sa si oc] assms(2)
  have "submitted (fst (restore_objects (Some cli) ac b mk pre th d sa si oc))
          = number_from (si + 1) (map Key (filter eligible (all_objects ?pages)))"
    by auto
  then have b: "length (submitted (fst (restore_objects (Some cli) ac b mk pre th d sa si oc)))
          = length (filter eligible (all_objects ?pages))"
    by (metis length_map number_from_fst)
  have "length (ac ?rs) = length ?rs" using perm [of ?rs] by (metis size_mset)
  then have c: "length (ac ?rs) = length (filter eligible objects)"
    using submit_all_results [of cli b d i "map Key (filter eligible objects)"] by simp
  have "sum_list (map total (ac ?rs)) = sum_list (map total ?rs)"
    using sum_list_total_perm [OF perm [of ?rs]] .
  then have d: "total (fold_results st0 (ac ?rs)) = total st0 + int (length (filter eligible objects))"
    using submit_all_results [of cli b d i "map Key (filter eligible objects)"]
    by (simp add: fold_results_total)
  from a b c d show ?thesis by (simp add: total_def)
qed

theorem restore_objects_counts_each_eligible_object_witness:
  "(\<forall>rs. mset (rev rs) = mset (rs :: Status list))
   \<and> snd (restore_objects (Some demo_cli) rev ''bkt'' 10 None 2 5 [] (- 1) 3) = Some (new_Status 0 2 0)
   \<and> error (new_Status 0 2 0) + restored (new_Status 0 2 0) + already_restored (new_Status 0 2 0)
       = int (length (filter eligible (all_objects (paginate demo_cli (listing ''bkt'' 10 None [])))))
   \<and> length (filter eligible (all_objects (paginate demo_cli (listing ''bkt'' 10 None [])))) = 2"
proof -
  have h1: "\<forall>rs. mset (rev rs) = mset (rs :: Status list)" by simp
  have h2: "snd (restore_objects (Some demo_cli) rev ''bkt'' 10 None 2 5 [] (- 1) 3)
              = Some (new_Status 0 2 0)"
    by code_simp
  have h3: "length (filter eligible (all_objects (paginate demo_cli (listing ''bkt'' 10 None [])))) = 2"
    by code_simp
  from restore_objects_counts_each_eligible_object [OF h1 h2] h1 h2 h3 show ?thesis by simp
qed

text \<open>
  Claim C2. A run on a bucket is the same run, event for event, as on the bucket with the
  objects of other storage classes removed from the listing, so those objects touch
  neither the dispatch nor the job status. Every submitted key is the key of a listed
  object whose class is GLACIER or ACCELERATED, and in a run that returns a status the
  submitted keys are exactly the keys of the eligible objects, in the order of the listing.
\<close>

theorem restore_objects_dispatches_eligible_only:
  "restore_objects (Some (drop_ineligible cli)) ac b mk pre th d sa si oc
     = restore_objects (Some cli) ac b mk pre th d sa si oc
   \<and> fst ` set (submitted (fst (restore_objects (Some cli) ac b mk pre th d sa si oc)))
       \<subseteq> Key ` {ob \<in> set (all_objects (paginate cli (listing b mk pre sa))). eligible ob}
   \<and> (snd (restore_objects (Some cli) ac b mk pre th d sa si oc) = Some st \<longrightarrow>
        map fst (submitted (fst (restore_objects (Some cli) ac b mk pre th d sa si oc)))
          = map Key (filter eligible (all_objects (paginate cli (listing b mk pre sa)))))"
proof -
  let ?run = "restore_objects (Some cli) ac b mk pre th d sa si oc"
  let ?pages = "paginate cli (listing b mk pre sa)"
  from restore_objects_submitted [of cli ac b mk pre th d sa si oc]
  obtain objs where
    o1: "submitted (fst ?run) = number_from (si + 1) (map Key (filter eligible objs))"
    and o2: "set objs \<subseteq> set (all_objects ?pages)"
    and o3: "\<forall>st. snd ?run = Some st \<longrightarrow> objs = all_objects ?pages"
    by blast
  have "fst ` set (submitted (fst ?run)) = Key ` {ob \<in> set objs. eligible ob}"
    using o1 number_from_keys [of "si + 1" objs] by simp
  then have a: "fst ` set (submitted (fst ?run)) \<subseteq> Key ` {ob \<in> set (all_objects ?pages). eligible ob}"
    using o2 by blast
  have b: "snd ?run = Some st \<longrightarrow>
             map fst (submitted (fst ?run)) = map Key (filter eligible (all_objects ?pages))"
    using o1 o3 by (simp add: number_from_fst)
  from a b restore_objects_drop [of cli ac b mk pre th d sa si oc] show ?thesis by simp
qed

theorem restore_objects_dispatches_eligible_only_witness:
  "snd (restore_objects (Some demo_cli) rev ''bkt'' 10 None 2 5 [] (- 1) 3) = Some (new_Status 0 2 0)
   \<and> map StorageClass (all_objects (paginate demo_cli (listing ''bkt'' 10 None [])))
       = [''GLACIER'', ''STANDARD'', ''ACCELERATED'']
   \<and> map Key (filter eligible (all_objects (paginate demo_cli (listing ''bkt'' 10 None []))))
       = [''k1'', ''k3'']
   \<and> map fst (submitted (fst (restore_objects (Some demo_cli) rev ''bkt'' 10 None 2 5 [] (- 1) 3)))
       = [''k1'', ''k3'']
   \<and> restore_calls (fst (restore_objects (Some demo_cli) rev ''bkt'' 10 None 2 5 [] (- 1) 3))
       = [''k1'', ''k3'']"
proof -
  have h1: "snd (restore_objects (Some demo_cli) rev ''bkt'' 10 None 2 5 [] (- 1) 3)
              = Some (new_Status 0 2 0)"
    by code_simp
  have h2: "map StorageClass (all_objects (paginate demo_cli (listing ''bkt'' 10 None [])))
              = [''GLACIER'', ''STANDARD'', ''ACCELERATED'']
            \<and> map Key (filter eligible (all_objects (paginate demo_cli (listing ''bkt'' 10 None []))))
              = [''k1'', ''k3'']"
    by code_simp
  have h3: "restore_calls (fst (restore_objects (Some demo_cli) rev ''bkt'' 10 None 2 5 [] (- 1) 3))
              = [''k1'', ''k3'']"
    by code_simp
  from restore_objects_dispatches_eligible_only
         [of demo_cli rev "''bkt''" 10 None 2 5 "[]" "- 1" 3 "new_Status 0 2 0"] h1 h2 h3
  show ?thesis by simp
qed

text \<open>
  Claim C3. When the metadata probe returns a restore state, complete or in progress, the
  outcome is \<open>Status(0, 0, 1)\<close>, no restore call is made, and adding the outcome to a
  job status raises the counter \<open>already_restored\<close> alone. The outcome is
  \<open>Status(0, 1, 0)\<close> exactly when the probe returned metadata without a restore state
  and the restore call returned.
\<close>

theorem restore_object_skips_present_restore_state:
  "(head_object cli b k = Returns (Some h) \<and> truthy (Restore h) \<longrightarrow>
      snd (restore_object cli b k d i) = new_Status 0 0 1
      \<and> restore_calls (fst (restore_object cli b k d i)) = []
      \<and> add_result st (snd (restore_object cli b k d i))
          = st\<lparr>already_restored := already_restored st + 1\<rparr>)
   \<and> (snd (restore_object cli b k d i) = new_Status 0 1 0 \<longleftrightarrow>
        (\<exists>h. head_object cli b k = Returns (Some h) \<and> \<not> truthy (Restore h)
              \<and> restore_object_rpc cli b k d = Returns ()))"
  by (auto simp add: restore_object_def restore_object_try_def add_result_def increment_error_def
      increment_restored_def increment_already_restored_def
      split: resp.splits option.splits)

theorem restore_object_skips_present_restore_state_witness:
  "head_object demo_cli ''bkt'' ''busy'' = Returns (Some \<lparr>Restore = Some ongoing_true\<rparr>)
   \<and> truthy (Restore \<lparr>Restore = Some ongoing_true\<rparr>)
   \<and> snd (restore_object demo_cli ''bkt'' ''busy'' 5 0) = new_Status 0 0 1
   \<and> restore_calls (fst (restore_object demo_cli ''bkt'' ''busy'' 5 0)) = []
   \<and> snd (restore_object demo_cli ''bkt'' ''done'' 5 1) = new_Status 0 0 1
   \<and> snd (restore_object demo_cli ''bkt'' ''k1'' 5 2) = new_Status 0 1 0
   \<and> restore_calls (fst (restore_object demo_cli ''bkt'' ''k1'' 5 2)) = [''k1'']"
proof -
  have h1: "head_object demo_cli ''bkt'' ''busy'' = Returns (Some \<lparr>Restore = Some ongoing_true\<rparr>)"
    by (simp add: demo_cli_def)
  have h2: "truthy (Restore \<lparr>Restore = Some ongoing_true\<rparr>)"
    by (simp add: truthy_def ongoing_true_def)
  have h3: "snd (restore_object demo_cli ''bkt'' ''done'' 5 1) = new_Status 0 0 1
            \<and> snd (restore_object demo_cli ''bkt'' ''k1'' 5 2) = new_Status 0 1 0
            \<and> restore_calls (fst (restore_object demo_cli ''bkt'' ''k1'' 5 2)) = [''k1'']"
    by code_simp
  from restore_object_skips_present_restore_state
         [of demo_cli "''bkt''" "''busy''" "\<lparr>Restore = Some ongoing_true\<rparr>" 5 0 "new_Status 0 0 0"]
       h1 h2 h3
  show ?thesis by simp
qed

text \<open>
  Claim C4. When the metadata probe or the restore call raises, \<^verbatim>\<open>restore_object\<close>
  returns \<open>Status(1, 0, 0)\<close> and its last event is a record at error level with the
  key, the index and the exception; so it does when the metadata is absent. Nothing a
  task meets can stop the loop over the pages: with a positive worker count and a listing
  whose pages can all be read, the loop returns a status whatever the probes and the
  restore calls do.
\<close>

theorem restore_object_contains_every_exception:
  "(head_object cli b k = Raises e
      \<or> (\<exists>h. head_object cli b k = Returns (Some h) \<and> \<not> truthy (Restore h)
              \<and> restore_object_rpc cli b k d = Raises e) \<longrightarrow>
      snd (restore_object cli b k d i) = new_Status 1 0 0
      \<and> last (fst (restore_object cli b k d i)) = Log ERROR (msg_failed k i e))
   \<and> (head_object cli b k = Returns None \<longrightarrow>
        snd (restore_object cli b k d i) = new_Status 1 0 0
        \<and> last (fst (restore_object cli b k d i)) = Log ERROR (msg_not_found k i))
   \<and> (0 < th \<and> listing_ok pages \<longrightarrow>
        (\<exists>st'. snd (pages_loop cli ac b th d pages i st) = Inr st'))"
proof -
  have a: "head_object cli b k = Raises e
      \<or> (\<exists>h. head_object cli b k = Returns (Some h) \<and> \<not> truthy (Restore h)
              \<and> restore_object_rpc cli b k d = Raises e) \<longrightarrow>
      snd (restore_object cli b k d i) = new_Status 1 0 0
      \<and> last (fst (restore_object cli b k d i)) = Log ERROR (msg_failed k i e)"
    by (auto simp add: restore_object_def restore_object_try_def)
  have b: "head_object cli b k = Returns None \<longrightarrow>
        snd (restore_object cli b k d i) = new_Status 1 0 0
        \<and> last (fst (restore_object cli b k d i)) = Log ERROR (msg_not_found k i)"
    by (simp add: restore_object_def restore_object_try_def)
  from a b pages_loop_returns [of th pages cli ac b d i st] show ?thesis by blast
qed

theorem restore_object_contains_every_exception_witness:
  "head_object demo_cli ''bkt'' ''denied'' = Raises (ClientError ''Forbidden'')
   \<and> snd (restore_object demo_cli ''bkt'' ''denied'' 5 0) = new_Status 1 0 0
   \<and> last (fst (restore_object demo_cli ''bkt'' ''denied'' 5 0))
       = Log ERROR (msg_failed ''denied'' 0 (ClientError ''Forbidden''))
   \<and> head_object demo_cli ''bkt'' ''gone'' = Returns None
   \<and> snd (restore_object demo_cli ''bkt'' ''gone'' 5 3) = new_Status 1 0 0
   \<and> last (fst (restore_object demo_cli ''bkt'' ''gone'' 5 3)) = Log ERROR (msg_not_found ''gone'' 3)
   \<and> (0::int) < 2 \<and> listing_ok mixed_pages
   \<and> (\<exists>st'. snd (pages_loop demo_cli rev ''bkt'' 2 5 mixed_pages 0 (new_Status 0 0 0)) = Inr st')
   \<and> snd (pages_loop demo_cli rev ''bkt'' 2 5 mixed_pages 0 (new_Status 0 0 0))
       = Inr (new_Status 3 1 0)"
proof -
  have h1: "head_object demo_cli ''bkt'' ''denied'' = Raises (ClientError ''Forbidden'')"
    by (simp add: demo_cli_def)
  have h2: "head_object demo_cli ''bkt'' ''gone'' = Returns None"
    by (simp add: demo_cli_def)
  have h3: "(0::int) < 2 \<and> listing_ok mixed_pages"
    by (simp add: mixed_pages_def)
  have h4: "snd (pages_loop demo_cli rev ''bkt'' 2 5 mixed_pages 0 (new_Status 0 0 0))
              = Inr (new_Status 3 1 0)"
    by code_simp
  from restore_object_contains_every_exception
         [of demo_cli "''bkt''" "''denied''" "ClientError ''Forbidden''" 5 0 2 mixed_pages rev
            "new_Status 0 0 0"]
       restore_object_contains_every_exception
         [of demo_cli "''bkt''" "''gone''" "ClientError ''Forbidden''" 5 3 2 mixed_pages rev
            "new_Status 0 0 0"]
       h1 h2 h3 h4
  show ?thesis by simp
qed

section \<open>Resuming\<close>

text \<open>
  Claim C5. In a resumed run whose resolver returned the key \<open>K\<close> and the index \<open>I\<close>,
  every listing the program requests has start-after \<open>K\<close>, and the indices of the
  submitted tasks are \<open>I + 1\<close>, \<open>I + 2\<close> and so on in the order of submission. In a run
  without resume, the listings have an empty start-after and the indices start at 0.
\<close>

theorem resumed_run_starts_after_last_record:
  "(resume a \<and> get_last_object files (log_file a) 100 LOG_RE_PATTERN = Inr (Some (K, I)) \<and> K \<noteq> []
      \<longrightarrow> (\<forall>r \<in> set (list_calls (snd (snd (main e files a)))). StartAfter r = K)
          \<and> map snd (submitted (snd (snd (main e files a))))
              = map (\<lambda>j. I + 1 + int j) [0..<length (submitted (snd (snd (main e files a))))])
   \<and> (\<not> resume a
      \<longrightarrow> (\<forall>r \<in> set (list_calls (snd (snd (main e files a)))). StartAfter r = [])
          \<and> map snd (submitted (snd (snd (main e files a))))
              = map (\<lambda>j. int j) [0..<length (submitted (snd (snd (main e files a))))])"
proof -
  let ?evs = "snd (snd (main e files a))"
  have key: "resume_point files a = Inr (K', I')
             \<Longrightarrow> (\<forall>r \<in> set (list_calls ?evs). StartAfter r = K')
                 \<and> map snd (submitted ?evs) = map (\<lambda>j. I' + 1 + int j) [0..<length (submitted ?evs)]"
    for K' I'
  proof -
    assume rp: "resume_point files a = Inr (K', I')"
    from main_trace [of e files a] show ?thesis
    proof (elim disjE exE conjE)
      assume "submitted ?evs = []" "list_calls ?evs = []"
      then show ?thesis by simp
    next
      fix K2 I2 oc
      assume rp2: "resume_point files a = Inr (K2, I2)"
        and s: "submitted ?evs
                  = submitted (fst (restore_objects (Some (cos e)) (as_completed e) (bucket a)
                      (size' a) (prefix a) (threads a) (days a) K2 I2 oc))"
        and l: "list_calls ?evs
                  = list_calls (fst (restore_objects (Some (cos e)) (as_completed e) (bucket a)
                      (size' a) (prefix a) (threads a) (days a) K2 I2 oc))"
      from rp rp2 have eq: "K2 = K'" "I2 = I'" by simp_all
      from restore_objects_submitted [of "cos e" "as_completed e" "bucket a" "size' a" "prefix a"
          "threads a" "days a" K' I' oc]
      obtain objs where "submitted ?evs = number_from (I' + 1) (map Key (filter eligible objs))"
        using s eq by auto
      then have a1: "map snd (submitted ?evs)
                       = map (\<lambda>j. I' + 1 + int j) [0..<length (submitted ?evs)]"
        by (rule numbered_consecutive)
      have "set (list_calls ?evs) \<subseteq> {listing (bucket a) (size' a) (prefix a) K'}"
        using restore_objects_list_calls [of "Some (cos e)" "as_completed e" "bucket a" "size' a"
            "prefix a" "threads a" "days a" K' I' oc] l eq by simp
      then have a2: "\<forall>r \<in> set (list_calls ?evs). StartAfter r = K'"
        by (auto simp add: listing_def)
      from a1 a2 show ?thesis by simp
    qed
  qed
  have r1: "resume a \<and> get_last_object files (log_file a) 100 LOG_RE_PATTERN = Inr (Some (K, I))
              \<and> K \<noteq> [] \<longrightarrow> resume_point files a = Inr (K, I)"
    by (simp add: resume_point_def)
  have r2: "\<not> resume a \<longrightarrow> resume_point files a = Inr ([], - 1)"
    by (simp add: resume_point_def)
  from key [of K I] key [of "[]" "- 1"] r1 r2 show ?thesis by auto
qed

theorem resumed_run_starts_after_last_record_witness:
  "resume resume_args
   \<and> get_last_object old_files (log_file resume_args) 100 LOG_RE_PATTERN
       = Inr (Some (''b/002.bin'', 7))
   \<and> ''b/002.bin'' \<noteq> []
   \<and> map StartAfter (list_calls (snd (snd (main demo_env old_files resume_args)))) = [''b/002.bin'']
   \<and> submitted (snd (snd (main demo_env old_files resume_args))) = [(''b/003.bin'', 8), (''done'', 9)]
   \<and> map snd (submitted (snd (snd (main demo_env old_files resume_args))))
       = map (\<lambda>j. 7 + 1 + int j) [0..<length (submitted (snd (snd (main demo_env old_files resume_args))))]
   \<and> \<not> resume demo_args
   \<and> submitted (snd (snd (main demo_env old_files demo_args))) = [(''k1'', 0), (''k3'', 1)]
   \<and> map snd (submitted (snd (snd (main demo_env old_files demo_args))))
       = map (\<lambda>j. int j) [0..<length (submitted (snd (snd (main demo_env old_files demo_args))))]"
proof -
  have h1: "resume resume_args \<and> \<not> resume demo_args"
    by (simp add: resume_args_def demo_args_def)
  have h2: "get_last_object old_files (log_file resume_args) 100 LOG_RE_PATTERN
              = Inr (Some (''b/002.bin'', 7))"
    by code_simp
  have h3: "map StartAfter (list_calls (snd (snd (main demo_env old_files resume_args))))
              = [''b/002.bin'']"
    by code_simp
  have h4: "submitted (snd (snd (main demo_env old_files resume_args)))
              = [(''b/003.bin'', 8), (''done'', 9)]"
    by code_simp
  have h5: "submitted (snd (snd (main demo_env old_files demo_args))) = [(''k1'', 0), (''k3'', 1)]"
    by code_simp
  from resumed_run_starts_after_last_record [of resume_args old_files "''b/002.bin''" 7 demo_env]
       resumed_run_starts_after_last_record [of demo_args old_files "''b/002.bin''" 7 demo_env]
       h1 h2 h3 h4 h5
  show ?thesis by simp
qed

text \<open>
  Claim C6. \<^verbatim>\<open>get_last_object\<close> does not read the file it is given: asked for
  \<^verbatim>\<open>restore.log\<close>, whose only record is for the key \<open>z\<close> at index 3, it returns the
  record of \<^verbatim>\<open>unarchive.log\<close>. On a log shorter than the window,
  \<^verbatim>\<open>get_last_n_lines\<close> returns the lines most recent first, and the scan, which
  reverses them, returns the oldest record, key \<open>a\<close> at index 0, where the most
  recent one is key \<open>b\<close> at index 1.
\<close>

theorem get_last_object_reads_fixed_file_oldest_first:
  "get_last_object other_files ''restore.log'' 100 LOG_RE_PATTERN = Inr (Some (''b/002.bin'', 7))
   \<and> other_files ''restore.log''
       = Some (log_line ''2024-05-01 09:00:00,000'' INFO (msg_restored ''z'' 3))
   \<and> get_last_object short_files ''unarchive.log'' 100 LOG_RE_PATTERN = Inr (Some (''a'', 0))
   \<and> get_last_n_lines short_files ''unarchive.log'' 100
       = Inr [[],
              ''2024-05-01 09:00:01,000 - INFO - '' @ msg_restored ''b'' 1,
              ''2024-05-01 09:00:00,000 - INFO - '' @ msg_restored ''a'' 0]"
proof -
  have a: "get_last_object other_files ''restore.log'' 100 LOG_RE_PATTERN
             = Inr (Some (''b/002.bin'', 7))"
    by code_simp
  have b: "other_files ''restore.log''
             = Some (log_line ''2024-05-01 09:00:00,000'' INFO (msg_restored ''z'' 3))"
    by (simp add: other_files_def)
  have c: "get_last_object short_files ''unarchive.log'' 100 LOG_RE_PATTERN = Inr (Some (''a'', 0))"
    by code_simp
  have d: "get_last_n_lines short_files ''unarchive.log'' 100
       = Inr [[],
              ''2024-05-01 09:00:01,000 - INFO - '' @ msg_restored ''b'' 1,
              ''2024-05-01 09:00:00,000 - INFO - '' @ msg_restored ''a'' 0]"
    by code_simp
  from a b c d show ?thesis by simp
qed

text \<open>
  Claim C7. With resume requested and a log in which no line matches the record pattern,
  the resolver returns \<open>None\<close>, and unpacking it into key and index raises TypeError
  before the check that prints the message and calls \<^verbatim>\<open>exit(1)\<close>: the program ends
  with an exception nobody caught and has printed nothing.
\<close>

theorem main_resume_without_record_is_uncaught:
  "get_last_object chatter_files (log_file resume_args) 100 LOG_RE_PATTERN = Inr None
   \<and> fst (main demo_env chatter_files resume_args)
       = Uncaught (TypeError ''cannot unpack non-iterable NoneType object'')
   \<and> snd (snd (main demo_env chatter_files resume_args)) = []"
proof -
  have a: "get_last_object chatter_files (log_file resume_args) 100 LOG_RE_PATTERN = Inr None"
    by code_simp
  have b: "fst (main demo_env chatter_files resume_args)
             = Uncaught (TypeError ''cannot unpack non-iterable NoneType object'')"
    by code_simp
  have c: "snd (snd (main demo_env chatter_files resume_args)) = []"
    by code_simp
  from a b c show ?thesis by simp
qed

section \<open>The page count\<close>

text \<open>
  Claim C8, as stated, fails for a run without resume: with 1000 objects and a page size
  of 1000 the page count given to the progress bar is 1, and the formula of the claim
  with the start index \<open>-1\<close> gives 2.
\<close>

theorem page_count_fresh_run_counterexample:
  "progress_totals (fst (restore_objects (Some demo_cli) rev ''bkt'' 1000 None 2 5 [] (- 1) 1000))
     = [Some 1]
   \<and> [Some (1::int)] \<noteq> [Some \<lceil>real_of_int (1000 - (- 1)) / real_of_int 1000\<rceil>]"
proof -
  have a: "progress_totals (fst (restore_objects (Some demo_cli) rev ''bkt'' 1000 None 2 5 [] (- 1) 1000))
             = [Some 1]"
    by code_simp
  have b: "\<lceil>real_of_int (1000 - (- 1)) / real_of_int 1000\<rceil> = (2::int)"
    by (simp add: ceiling_divide_eq_div)
  from a b show ?thesis by simp
qed

text \<open>
  Claim C8, amended. Without a prefix, for a page size from 1 to 1000 and an object count
  from 1 up (below \<open>2^42\<close>, where the quotient of the source is exact), the page count
  given to the progress bar is \<open>ceil(total_count / page_size)\<close> when the run has no
  start-after key, and \<open>ceil((total_count - start_index) / page_size)\<close> when it has one.
\<close>

theorem page_count_without_prefix:
  assumes "\<not> truthy pre" and "1 \<le> mk" and "mk \<le> 1000" and "1 \<le> oc" and "oc < 2 ^ 42"
    and "- 1 \<le> si" and "si < 2 ^ 42"
  shows "progress_totals (fst (restore_objects (Some cli) ac b mk pre th d sa si oc))
           = [Some (if sa = [] then \<lceil>real_of_int oc / real_of_int mk\<rceil>
                    else \<lceil>real_of_int (oc - si) / real_of_int mk\<rceil>)]"
  using assms restore_objects_progress [of pre mk cli ac b th d sa si oc] by simp

theorem page_count_without_prefix_witness:
  "\<not> truthy None \<and> (1::int) \<le> 1000 \<and> (1000::int) \<le> 1000 \<and> (1::int) \<le> 2500
   \<and> (2500::int) < 2 ^ 42 \<and> (- 1::int) \<le> 999 \<and> (999::int) < 2 ^ 42
   \<and> progress_totals (fst (restore_objects (Some demo_cli) rev ''bkt'' 1000 None 2 5 ''b/002.bin'' 999 2500))
       = [Some 2]
   \<and> progress_totals (fst (restore_objects (Some demo_cli) rev ''bkt'' 1000 None 2 5 [] (- 1) 2500))
       = [Some 3]"
proof -
  have h: "\<not> truthy None" by (simp add: truthy_def)
  have c1: "\<lceil>real_of_int (2500 - 999) / real_of_int 1000\<rceil> = (2::int)"
    by (simp add: ceiling_divide_eq_div)
  have c2: "\<lceil>real_of_int 2500 / real_of_int 1000\<rceil> = (3::int)"
    by (simp add: ceiling_divide_eq_div)
  from page_count_without_prefix [of None 1000 2500 999 demo_cli rev "''bkt''" 2 5 "''b/002.bin''"]
       page_count_without_prefix [of None 1000 2500 "- 1" demo_cli rev "''bkt''" 2 5 "[]"]
       h c1 c2
  show ?thesis by simp
qed

section \<open>How the program ends, and what it leaves in the log\<close>

text \<open>
  Claim C9. When the listing raises a client error, \<^verbatim>\<open>restore_objects\<close> prints the
  error and returns \<open>None\<close>; \<^verbatim>\<open>main\<close> then prints that all restores are completed,
  with the status \<open>None\<close>, and the process ends with exit status 0.
\<close>

theorem main_listing_error_exits_zero:
  "paginate (cos failing_env) (listing ''bkt'' 10 None []) = [PageRaises (ClientError ''AccessDenied'')]
   \<and> fst (main failing_env old_files demo_args) = Exit 0
   \<and> Print (''CLIENT ERROR: AccessDenied'' @ nl @ nl) \<in> set (snd (snd (main failing_env old_files demo_args)))
   \<and> last (snd (snd (main failing_env old_files demo_args)))
       = Print (''All restore are completed, status: None'' @ nl)"
proof -
  have a: "paginate (cos failing_env) (listing ''bkt'' 10 None [])
             = [PageRaises (ClientError ''AccessDenied'')]"
    by (simp add: failing_env_def failing_cli_def)
  have b: "fst (main failing_env old_files demo_args) = Exit 0"
    by code_simp
  have c: "Print (''CLIENT ERROR: AccessDenied'' @ nl @ nl)
             \<in> set (snd (snd (main failing_env old_files demo_args)))"
    by code_simp
  have d: "last (snd (snd (main failing_env old_files demo_args)))
             = Print (''All restore are completed, status: None'' @ nl)"
    by code_simp
  from a b c d show ?thesis by simp
qed

text \<open>
  Claim C10, as stated, fails: after a resumed run, the log no longer starts with the
  record that the earlier run had left in it; its first line is the login record of the
  new run.
\<close>

theorem log_records_of_earlier_run_counterexample:
  "old_files ''unarchive.log'' = Some old_record
   \<and> take (length old_record) (the (fst (snd (main demo_env old_files resume_args)) ''unarchive.log''))
       \<noteq> old_record
   \<and> take 30 (the (fst (snd (main demo_env old_files resume_args)) ''unarchive.log''))
       = ''2024-05-02 10:00:00,000 - INFO''"
proof -
  have a: "old_files ''unarchive.log'' = Some old_record" by (simp add: old_files_def)
  have b: "take (length old_record)
             (the (fst (snd (main demo_env old_files resume_args)) ''unarchive.log'')) \<noteq> old_record"
    by code_simp
  have c: "take 30 (the (fst (snd (main demo_env old_files resume_args)) ''unarchive.log''))
             = ''2024-05-02 10:00:00,000 - INFO''"
    by code_simp
  from a b c show ?thesis by simp
qed

text \<open>
  Claim C10, amended. A run that gets as far as opening the log leaves in the log file
  exactly the records of that run, in the order of its events: opening the file empties
  it. A run that ends before (more threads than the page size, or no resume point) leaves
  the file system as it was. Within a run the log only grows: the file after further
  events is the file before them followed by the records of those events.
\<close>

theorem log_is_emptied_then_appended_to:
  "(threads a \<le> size' a \<and> resume_point files a = Inr p \<longrightarrow>
      fst (snd (main e files a)) (log_file a)
        = Some (render_log (asctime e) 0 (logged (verbose a) (snd (snd (main e files a))))))
   \<and> (size' a < threads a \<or> resume_point files a = Inl x \<longrightarrow> fst (snd (main e files a)) = files)
   \<and> write_log e a files (evs @ evs') (log_file a)
       = Some (the (write_log e a files evs (log_file a))
               @ render_log (asctime e) (length (logged (verbose a) evs)) (logged (verbose a) evs'))"
proof -
  have c: "write_log e a files (evs @ evs') (log_file a)
       = Some (the (write_log e a files evs (log_file a))
               @ render_log (asctime e) (length (logged (verbose a) evs)) (logged (verbose a) evs'))"
    by (simp add: write_log_def logged_append render_log_append)
  from main_files [of a files p e x] c show ?thesis
    by (auto simp add: write_log_def)
qed

theorem log_is_emptied_then_appended_to_witness:
  "threads resume_args \<le> size' resume_args
   \<and> resume_point old_files resume_args = Inr (''b/002.bin'', 7)
   \<and> fst (snd (main demo_env old_files resume_args)) (log_file resume_args)
       = Some (render_log (asctime demo_env) 0
                 (logged (verbose resume_args) (snd (snd (main demo_env old_files resume_args)))))
   \<and> size' (demo_args\<lparr>threads := 20\<rparr>) < threads (demo_args\<lparr>threads := 20\<rparr>)
   \<and> fst (snd (main demo_env old_files (demo_args\<lparr>threads := 20\<rparr>))) = old_files"
proof -
  have h1: "threads resume_args \<le> size' resume_args"
    by (simp add: resume_args_def demo_args_def)
  have h2: "resume_point old_files resume_args = Inr (''b/002.bin'', 7)"
    by code_simp
  have h3: "size' (demo_args\<lparr>threads := 20\<rparr>) < threads (demo_args\<lparr>threads := 20\<rparr>)"
    by (simp add: demo_args_def)
  from log_is_emptied_then_appended_to [of resume_args old_files "(''b/002.bin'', 7)" demo_env]
       log_is_emptied_then_appended_to [of "demo_args\<lparr>threads := 20\<rparr>" old_files _ demo_env]
       h1 h2 h3
  show ?thesis by simp
qed

end
